theory Spec2Isabelle
  imports Complex_Main "HOL-Library.Word" "HOL-Library.Multiset"
begin

section \<open>Data model of Layer.cpp\<close>

text \<open>
  A \<open>Point\<close> has two integer coordinates (\<open>coord_t\<close>), a \<open>Polygon\<close> is its vertex
  list, an \<open>ExPolygon\<close> is an outer contour with holes.
\<close>

type_synonym point = "int \<times> int"

type_synonym polygon = "point list"

record expolygon =
  contour :: polygon
  holes :: "polygon list"

text \<open>
  A \<open>Surface\<close> is an \<open>ExPolygon\<close> tagged with a surface classification and the
  number of extra perimeters (an \<open>unsigned short\<close>, the key type of the
  \<open>std::map\<close> in \<open>Layer::make_perimeters\<close>). The enumeration \<open>SurfaceType\<close> is
  declared outside the files at hand; a surface type is kept as the integer value of
  its enumerator.
\<close>

type_synonym surface_type = nat

record surface =
  surface_type :: surface_type
  extra_perimeters :: "16 word"
  expolygon :: expolygon

text \<open>
  The part of \<open>PrintRegionConfig\<close> that \<open>Layer::make_perimeters\<close> reads. The
  extrusion width is only ever read through
  \<open>config.serialize("perimeter_extrusion_width")\<close>, so the field holds that string.
  The two speeds are floating-point options compared with \<open>==\<close>; they are kept as
  the numbers they denote.
\<close>

record print_region_config =
  perimeter_extruder :: int
  perimeters :: int
  perimeter_speed :: real
  gap_fill_speed :: real
  overhangs :: bool
  perimeter_extrusion_width :: string
  thin_walls :: bool
  external_perimeters_first :: bool

text \<open>
  A \<open>LayerRegion\<close>: \<open>config\<close> is \<open>region()->config\<close>; the three surface
  collections are the \<open>surfaces\<close> vectors of \<open>slices\<close>, \<open>fill_surfaces\<close> and
  \<open>perimeter_surfaces\<close>.
\<close>

record layer_region =
  config :: print_region_config
  slices :: "surface list"
  fill_surfaces :: "surface list"
  perimeter_surfaces :: "surface list"

text \<open>
  A \<open>Layer\<close>. Layers live in a store and refer to their neighbours by address;
  \<open>None\<close> is \<open>NULL\<close>. The layer owns its regions, each allocated on its own
  by \<open>add_region\<close> and reachable only through the vector \<open>regions\<close>, so the vector
  of pointers is the list of the regions themselves. \<open>layer_slices\<close> is the member
  \<open>slices.expolygons\<close> of the layer (the name \<open>slices\<close> is taken by the region's
  member), \<open>layer_id\<close> is \<open>_id\<close>.
\<close>

type_synonym addr = nat

record layer =
  upper_layer :: "addr option"
  lower_layer :: "addr option"
  regions :: "layer_region list"
  slicing_errors :: bool
  slice_z :: real
  print_z :: real
  height :: real
  layer_slices :: "expolygon list"
  perimeter_expolygons :: "expolygon list"
  layer_id :: nat

type_synonym store = "addr \<rightharpoonup> layer"

text \<open>
  What a call can end with, besides returning: \<open>OutOfRange\<close> is the
  \<open>std::out_of_range\<close> thrown by \<open>std::vector::at\<close>, \<open>DegenerateGeometry\<close> is a
  failure thrown by a polygon primitive, and \<open>Undefined\<close> marks a place where the
  source does something the language leaves undefined (an unchecked iterator, \<open>front()\<close>
  of an empty vector, a write through a dangling pointer).
\<close>

datatype error = OutOfRange | DegenerateGeometry | Undefined

text \<open>
  A member function that mutates the layer either returns, leaving the layer in a new
  state, or throws, leaving it in the state reached when the exception left the call.
\<close>

datatype outcome = Ok layer | Failed error layer

section \<open>Construction and region management\<close>

text \<open>
  The constructor, without the back-pointer to the sliced object: both neighbour links
  \<open>NULL\<close>, no region, no slicing error, no slice.
\<close>

definition Layer :: "nat \<Rightarrow> real \<Rightarrow> real \<Rightarrow> real \<Rightarrow> layer" where
  "Layer i h pz sz =
     \<lparr>upper_layer = None, lower_layer = None, regions = [], slicing_errors = False,
      slice_z = sz, print_z = pz, height = h, layer_slices = [],
      perimeter_expolygons = [], layer_id = i\<rparr>"

definition region_count :: "layer \<Rightarrow> nat" where
  "region_count l = length (regions l)"

text \<open>
  \<open>get_region(int idx)\<close> is \<open>regions.at(idx)\<close>: the \<open>int\<close> is converted to
  \<open>size_t\<close> (sign extension to 64 bits, read unsigned) and \<open>at\<close> throws unless the
  converted index is below the size.
\<close>

definition get_region :: "layer \<Rightarrow> 32 word \<Rightarrow> error + layer_region" where
  "get_region l idx =
     (let n = unat (scast idx :: 64 word)
      in if n < length (regions l) then Inr (regions l ! n) else Inl OutOfRange)"

text \<open>
  \<open>delete_region(int idx)\<close> forms \<open>regions.begin() + idx\<close>, dereferences it and
  erases it, with no check of \<open>idx\<close>: outside the vector this is undefined.
\<close>

definition delete_region :: "layer \<Rightarrow> 32 word \<Rightarrow> error + layer" where
  "delete_region l idx =
     (if 0 \<le> sint idx \<and> nat (sint idx) < length (regions l)
      then Inr (l\<lparr>regions := take (nat (sint idx)) (regions l)
                              @ drop (Suc (nat (sint idx))) (regions l)\<rparr>)
      else Inl Undefined)"

text \<open>
  \<open>clear_regions\<close>: \<open>for (int i = regions.size()-1; i >= 0; --i) delete_region(i)\<close>.
  The size is converted to \<open>int\<close> by truncation to 32 bits.
\<close>

function clear_regions_from :: "32 word \<Rightarrow> layer \<Rightarrow> error + layer" where
  "clear_regions_from i l =
     (if 0 \<le> sint i
      then (case delete_region l i of Inl e \<Rightarrow> Inl e | Inr l' \<Rightarrow> clear_regions_from (i - 1) l')
      else Inr l)"
  by pat_completeness auto
termination
proof (relation "measure (\<lambda>(i, l). nat (sint i + 1))")
  show "wf (measure (\<lambda>(i, l). nat (sint i + 1)))" by simp
next
  fix i :: "32 word" and l :: layer and x2 :: layer
  assume a: "0 \<le> sint i"
  have b: "sint i < 2 ^ 31" using sint_lt [of i] by simp
  have "sint (i - 1) = signed_take_bit 31 (sint i - 1)"
    by (simp add: sint_word_ariths)
  also have "\<dots> = sint i - 1"
    using a b by (intro signed_take_bit_int_eq_self) auto
  finally show "((i - 1, x2), (i, l)) \<in> measure (\<lambda>(i, l). nat (sint i + 1))"
    using a by simp
qed

declare clear_regions_from.simps [simp del]

definition clear_regions :: "layer \<Rightarrow> error + layer" where
  "clear_regions l = clear_regions_from (word_of_nat (length (regions l)) - 1) l"

section \<open>Destruction and the neighbour links\<close>

text \<open>
  The constructor puts a fresh layer, with both neighbour links \<open>NULL\<close>, at an
  address of the store.
\<close>

definition new_Layer :: "store \<Rightarrow> addr \<Rightarrow> nat \<Rightarrow> real \<Rightarrow> real \<Rightarrow> real \<Rightarrow> store" where
  "new_Layer h a i ht pz sz = h(a \<mapsto> Layer i ht pz sz)"

text \<open>A write to a member of the layer at an address; the address must be live.\<close>

definition set_lower_layer :: "store \<Rightarrow> addr \<Rightarrow> addr option \<Rightarrow> error + store" where
  "set_lower_layer h a v =
     (case h a of None \<Rightarrow> Inl Undefined | Some l \<Rightarrow> Inr (h(a \<mapsto> l\<lparr>lower_layer := v\<rparr>)))"

definition set_upper_layer :: "store \<Rightarrow> addr \<Rightarrow> addr option \<Rightarrow> error + store" where
  "set_upper_layer h a v =
     (case h a of None \<Rightarrow> Inl Undefined | Some l \<Rightarrow> Inr (h(a \<mapsto> l\<lparr>upper_layer := v\<rparr>)))"

text \<open>
  The first half of \<open>Layer::~Layer\<close> ("remove references to self"): the two
  \<open>if\<close> statements, in order; the second reads \<open>this->lower_layer\<close> after the
  first has written.
\<close>

definition remove_references_to_self :: "store \<Rightarrow> addr \<Rightarrow> error + store" where
  "remove_references_to_self h a =
     (case h a of
        None \<Rightarrow> Inl Undefined
      | Some l \<Rightarrow>
          (case (case upper_layer l of None \<Rightarrow> Inr h | Some u \<Rightarrow> set_lower_layer h u None) of
             Inl e \<Rightarrow> Inl e
           | Inr h1 \<Rightarrow>
               (case h1 a of
                  None \<Rightarrow> Inl Undefined
                | Some l1 \<Rightarrow>
                    (case lower_layer l1 of None \<Rightarrow> Inr h1 | Some d \<Rightarrow> set_upper_layer h1 d None))))"

text \<open>
  The destructor, as the list of the stores it passes through, in order: the store after
  the references to self are removed, the store after \<open>clear_regions\<close>, and the store
  after the object is gone.
\<close>

definition destroy_Layer :: "store \<Rightarrow> addr \<Rightarrow> error + store list" where
  "destroy_Layer h a =
     (case remove_references_to_self h a of
        Inl e \<Rightarrow> Inl e
      | Inr h1 \<Rightarrow>
          (case h1 a of
             None \<Rightarrow> Inl Undefined
           | Some l \<Rightarrow>
               (case clear_regions l of
                  Inl e \<Rightarrow> Inl e
                | Inr l' \<Rightarrow> Inr [h1, h1(a \<mapsto> l'), (h1(a \<mapsto> l'))(a := None)])))"

text \<open>
  The linkage invariant of the store: every neighbour link points to a live layer whose
  opposite link points back.
\<close>

definition links_back :: "store \<Rightarrow> addr \<Rightarrow> bool" where
  "links_back h a =
     (case h a of
        None \<Rightarrow> True
      | Some l \<Rightarrow>
          (case upper_layer l of
             None \<Rightarrow> True
           | Some b \<Rightarrow> (case h b of None \<Rightarrow> False | Some lb \<Rightarrow> lower_layer lb = Some a))
          \<and> (case lower_layer l of
               None \<Rightarrow> True
             | Some b \<Rightarrow> (case h b of None \<Rightarrow> False | Some lb \<Rightarrow> upper_layer lb = Some a)))"

definition neighbours_symmetric :: "store \<Rightarrow> bool" where
  "neighbours_symmetric h = (\<forall>a \<in> dom h. links_back h a)"

text \<open>No layer of the store refers to the address.\<close>

definition unreferenced :: "store \<Rightarrow> addr \<Rightarrow> bool" where
  "unreferenced h a =
     (\<forall>b \<in> dom h. case h b of None \<Rightarrow> True
                   | Some l \<Rightarrow> upper_layer l \<noteq> Some a \<and> lower_layer l \<noteq> Some a)"

text \<open>
  A layer \<open>lb\<close> at address \<open>b\<close> with its links to a destroyed layer \<open>l\<close> set to
  \<open>NULL\<close>: the lower link of the layer above \<open>l\<close>, the upper link of the layer below.
\<close>

definition unlinked :: "layer \<Rightarrow> addr \<Rightarrow> layer \<Rightarrow> layer" where
  "unlinked l b lb =
     lb\<lparr>lower_layer := (if upper_layer l = Some b then None else lower_layer lb),
        upper_layer := (if lower_layer l = Some b then None else upper_layer lb)\<rparr>"

section \<open>The polygon primitives and the perimeter routine\<close>

text \<open>
  \<open>union_\<close>, \<open>union_ex\<close>, \<open>intersection_ex\<close> (ClipperUtils) and
  \<open>LayerRegion::make_perimeters\<close> are called by \<open>Layer.cpp\<close> and defined elsewhere:
  they are parameters of the model (\<open>union_polygons\<close> stands for \<open>union_\<close>, which
  is no identifier here). A boolean primitive returns its result or throws; the perimeter
  routine is taken to return.
  \<open>intersection_ex\<close> is handed the two surface collections as the source writes them.
  \<open>region_make_perimeters r input\<close> is the pair (perimeter surfaces, fill surfaces)
  found in the two output collections after \<open>r->make_perimeters(input, &perimeter_surfaces,
  &fill_surfaces)\<close>; both collections are empty when \<open>Layer.cpp\<close> makes the call.
\<close>

record prims =
  union_polygons :: "polygon list \<Rightarrow> error + expolygon list"
  union_ex :: "surface list \<Rightarrow> bool \<Rightarrow> error + expolygon list"
  intersection_ex :: "surface list \<Rightarrow> surface list \<Rightarrow> error + expolygon list"
  region_make_perimeters :: "layer_region \<Rightarrow> surface list \<Rightarrow> surface list \<times> surface list"

text \<open>
  Modelled from the spec: the conversions of a surface collection to \<open>ExPolygons\<close> and
  to \<open>Polygons\<close> are not in the files at hand. The raw slices are "reused directly" as
  polygons-with-holes, and for the union the holes are "flattened into the general
  polygon set": each surface gives its contour followed by its holes.
\<close>

definition to_expolygons :: "surface list \<Rightarrow> expolygon list" where
  "to_expolygons ss = map expolygon ss"

definition to_polygons :: "surface list \<Rightarrow> polygon list" where
  "to_polygons ss = concat (map (\<lambda>s. contour (expolygon s) # holes (expolygon s)) ss)"

section \<open>The chaining heuristic\<close>

text \<open>
  Modelled from the spec: \<open>Geometry::chained_path\<close> is not in the files at hand. It
  is the greedy nearest-neighbour chain over the points, "ties broken by original input
  index": the chain starts from the first input point and repeatedly moves to the
  nearest point not yet visited, the one of lowest input index among the nearest. The
  result is the list of input indices in visiting order.
\<close>

definition dist2 :: "point \<Rightarrow> point \<Rightarrow> int" where
  "dist2 p q = (fst p - fst q) * (fst p - fst q) + (snd p - snd q) * (snd p - snd q)"

fun nearest_point :: "point \<Rightarrow> nat \<times> point \<Rightarrow> (nat \<times> point) list \<Rightarrow> nat \<times> point" where
  "nearest_point c best [] = best"
| "nearest_point c best (x # xs) =
     nearest_point c (if dist2 c (snd x) < dist2 c (snd best) then x else best) xs"

function chain :: "point \<Rightarrow> (nat \<times> point) list \<Rightarrow> nat list" where
  "chain c [] = []"
| "chain c (x # xs) =
     (let b = nearest_point c x xs in fst b # chain (snd b) (remove1 b (x # xs)))"
  by pat_completeness auto
termination
proof (relation "measure (\<lambda>(c, ys). length ys)")
  show "wf (measure (\<lambda>(c, ys). length ys))" by simp
next
  fix c :: point and x :: "nat \<times> point" and xs :: "(nat \<times> point) list" and b :: "nat \<times> point"
  assume b: "b = nearest_point c x xs"
  have mem: "nearest_point c y ys \<in> set (y # ys)" for y ys
    by (induction ys arbitrary: y) auto
  have "b \<in> set (x # xs)" unfolding b by (rule mem)
  then have "length (remove1 b (x # xs)) < length (x # xs)"
    by (simp only: length_remove1 if_True) simp
  then show "((snd b, remove1 b (x # xs)), (c, x # xs)) \<in> measure (\<lambda>(c, ys). length ys)"
    by simp
qed

definition chained_path :: "point list \<Rightarrow> nat list" where
  "chained_path pts =
     (case pts of [] \<Rightarrow> [] | p # _ \<Rightarrow> chain p (zip [0..<length pts] pts))"

text \<open>
  The order that the heuristic is to produce, as a property of an index list: every
  next index is, among the indices not yet visited, one whose point is nearest to the
  point visited last, and the lowest such index. \<open>preferred_candidate\<close> is the same
  preference between two candidates of the chain, each an index with its point.
\<close>

definition preferred :: "point \<Rightarrow> point list \<Rightarrow> nat \<Rightarrow> nat \<Rightarrow> bool" where
  "preferred c pts i j \<longleftrightarrow>
     dist2 c (pts ! i) < dist2 c (pts ! j)
     \<or> (dist2 c (pts ! i) = dist2 c (pts ! j) \<and> i \<le> j)"

definition preferred_candidate :: "point \<Rightarrow> nat \<times> point \<Rightarrow> nat \<times> point \<Rightarrow> bool" where
  "preferred_candidate c a b \<longleftrightarrow>
     dist2 c (snd a) < dist2 c (snd b)
     \<or> (dist2 c (snd a) = dist2 c (snd b) \<and> fst a \<le> fst b)"

definition greedy_chain :: "point list \<Rightarrow> nat list \<Rightarrow> bool" where
  "greedy_chain pts ord \<longleftrightarrow>
     (\<forall>k \<in> set [0..<length ord - 1]. \<forall>j \<in> set [0..<length pts].
        j \<notin> set (take (Suc k) ord) \<longrightarrow> preferred (pts ! (ord ! k)) pts (ord ! Suc k) j)"

section \<open>make_slices\<close>

text \<open>
  \<open>contour.first_point()\<close> is the front of the vertex vector, undefined for a contour
  with no vertex. The loop over the merged slices collects the ordering points.
\<close>

fun ordering_points_of :: "expolygon list \<Rightarrow> error + point list" where
  "ordering_points_of [] = Inr []"
| "ordering_points_of (ex # exs) =
     (case contour ex of
        [] \<Rightarrow> Inl Undefined
      | p # _ \<Rightarrow> (case ordering_points_of exs of Inl e \<Rightarrow> Inl e | Inr ps \<Rightarrow> Inr (p # ps)))"

text \<open>The \<open>else\<close> branch of the merge: every region's polygons, then one union.\<close>

definition union_of_regions :: "prims \<Rightarrow> layer \<Rightarrow> error + expolygon list" where
  "union_of_regions P l = union_polygons P (concat (map (\<lambda>r. to_polygons (slices r)) (regions l)))"

definition merged_slices :: "prims \<Rightarrow> layer \<Rightarrow> error + expolygon list" where
  "merged_slices P l =
     (if length (regions l) = 1 then Inr (to_expolygons (slices (hd (regions l))))
      else union_of_regions P l)"

text \<open>
  The second half of \<open>make_slices\<close>: clear the layer's slices, order the merged ones
  by the chain over their first contour points, and store them in that order.
\<close>

definition populate_slices :: "expolygon list \<Rightarrow> layer \<Rightarrow> outcome" where
  "populate_slices sl l =
     (let l0 = l\<lparr>layer_slices := []\<rparr>
      in case ordering_points_of sl of
           Inl e \<Rightarrow> Failed e l0
         | Inr ordering_points \<Rightarrow>
             Ok (l0\<lparr>layer_slices := map (\<lambda>i. sl ! i) (chained_path ordering_points)\<rparr>))"

definition make_slices :: "prims \<Rightarrow> layer \<Rightarrow> outcome" where
  "make_slices P l =
     (case merged_slices P l of Inl e \<Rightarrow> Failed e l | Inr sl \<Rightarrow> populate_slices sl l)"

text \<open>
  The general path alone, taken whatever the number of regions: what
  \<open>make_slices\<close> would do without its single-region shortcut.
\<close>

definition make_slices_general :: "prims \<Rightarrow> layer \<Rightarrow> outcome" where
  "make_slices_general P l =
     (case union_of_regions P l of Inl e \<Rightarrow> Failed e l | Inr sl \<Rightarrow> populate_slices sl l)"

section \<open>make_perimeters\<close>

text \<open>The test of the inner loop: the eight compared configuration values.\<close>

definition compatible :: "print_region_config \<Rightarrow> print_region_config \<Rightarrow> bool" where
  "compatible c other_config \<longleftrightarrow>
     perimeter_extruder c = perimeter_extruder other_config
     \<and> perimeters c = perimeters other_config
     \<and> perimeter_speed c = perimeter_speed other_config
     \<and> gap_fill_speed c = gap_fill_speed other_config
     \<and> overhangs c = overhangs other_config
     \<and> perimeter_extrusion_width c = perimeter_extrusion_width other_config
     \<and> thin_walls c = thin_walls other_config
     \<and> external_perimeters_first c = external_perimeters_first other_config"

text \<open>
  "find compatible regions": \<open>layerms\<close>, as indices into \<open>regions\<close>, is the current
  region followed by every later region with a compatible configuration.
\<close>

definition find_compatible :: "layer_region list \<Rightarrow> nat \<Rightarrow> nat list" where
  "find_compatible rs i =
     i # filter (\<lambda>j. compatible (config (rs ! i)) (config (rs ! j))) [Suc i..<length rs]"

text \<open>
  The single-region branch: clear both collections of the region, let the perimeter routine
  fill them from the region's own slices, then replace the layer's
  \<open>perimeter_expolygons\<close> by the expolygons of the perimeter surfaces.
\<close>

definition process_single :: "prims \<Rightarrow> nat \<Rightarrow> layer \<Rightarrow> outcome" where
  "process_single P i l =
     (let r0 = (regions l ! i)\<lparr>fill_surfaces := [], perimeter_surfaces := []\<rparr>;
          out = region_make_perimeters P r0 (slices r0);
          r1 = r0\<lparr>perimeter_surfaces := fst out, fill_surfaces := snd out\<rparr>
      in Ok (l\<lparr>regions := (regions l)[i := r1],
               perimeter_expolygons := map expolygon (perimeter_surfaces r1)\<rparr>))"

text \<open>
  \<open>slices[s->extra_perimeters].push_back(*s)\<close> on the \<open>std::map\<close>, kept as the
  list of its entries in ascending key order.
\<close>

fun push_bucket :: "surface \<Rightarrow> (16 word \<times> surface list) list \<Rightarrow> (16 word \<times> surface list) list" where
  "push_bucket s [] = [(extra_perimeters s, [s])]"
| "push_bucket s ((k, v) # m) =
     (if extra_perimeters s = k then (k, v @ [s]) # m
      else if extra_perimeters s < k then (extra_perimeters s, [s]) # (k, v) # m
      else (k, v) # push_bucket s m)"

definition group_slices :: "layer \<Rightarrow> nat list \<Rightarrow> (16 word \<times> surface list) list" where
  "group_slices l layerms =
     fold push_bucket (concat (map (\<lambda>k. slices (regions l ! k)) layerms)) []"

text \<open>
  "merge the surfaces assigned to each group": one \<open>union_ex\<close> with safety offset per
  bucket, every resulting expolygon tagged like the bucket's first surface.
\<close>

fun merge_buckets :: "prims \<Rightarrow> (16 word \<times> surface list) list \<Rightarrow> error + surface list" where
  "merge_buckets P [] = Inr []"
| "merge_buckets P ((k, v) # m) =
     (case union_ex P v True of
        Inl e \<Rightarrow> Inl e
      | Inr expp \<Rightarrow>
          (case merge_buckets P m of
             Inl e \<Rightarrow> Inl e
           | Inr rest \<Rightarrow> Inr (map (\<lambda>ex. (hd v)\<lparr>expolygon := ex\<rparr>) expp @ rest)))"

text \<open>
  "assign fill_surfaces to each layer": the loop over the members of the group. Both
  collections of a member are refilled with surfaces cloned from
  \<open>fill_surfaces.surfaces.front()\<close>. A failing intersection leaves the layer as it is
  at that moment.
\<close>

fun redistribute :: "prims \<Rightarrow> surface list \<Rightarrow> surface list \<Rightarrow> nat list \<Rightarrow> layer \<Rightarrow> outcome" where
  "redistribute P fill perim [] l = Ok l"
| "redistribute P fill perim (k # ks) l =
     (case intersection_ex P fill (slices (regions l ! k)) of
        Inl e \<Rightarrow> Failed e l
      | Inr expp \<Rightarrow>
          (let r1 = (regions l ! k)\<lparr>fill_surfaces := map (\<lambda>ex. (hd fill)\<lparr>expolygon := ex\<rparr>) expp\<rparr>;
               l1 = l\<lparr>regions := (regions l)[k := r1]\<rparr>
           in case intersection_ex P perim (slices r1) of
                Inl e \<Rightarrow> Failed e l1
              | Inr expp' \<Rightarrow>
                  (let r2 = r1\<lparr>perimeter_surfaces := map (\<lambda>ex. (hd fill)\<lparr>expolygon := ex\<rparr>) expp'\<rparr>
                   in redistribute P fill perim ks (l\<lparr>regions := (regions l)[k := r2]\<rparr>))))"

text \<open>
  The multi-region branch for the group \<open>layerms\<close> led by region \<open>i\<close>.
\<close>

definition process_multi :: "prims \<Rightarrow> nat \<Rightarrow> nat list \<Rightarrow> layer \<Rightarrow> outcome" where
  "process_multi P i layerms l =
     (case merge_buckets P (group_slices l layerms) of
        Inl e \<Rightarrow> Failed e l
      | Inr new_slices \<Rightarrow>
          (let out = region_make_perimeters P (regions l ! i) new_slices;
               perim = fst out; fill = snd out;
               l1 = l\<lparr>perimeter_expolygons := map expolygon perim\<rparr>
           in if fill \<noteq> [] then redistribute P fill perim layerms l1 else Ok l1))"

definition process_group :: "prims \<Rightarrow> nat \<Rightarrow> nat list \<Rightarrow> layer \<Rightarrow> outcome" where
  "process_group P i layerms l =
     (if length layerms = 1 then process_single P i l else process_multi P i layerms l)"

text \<open>
  The outer loop over the regions, with the set \<open>done\<close> of the regions whose
  perimeters are already generated.
\<close>

fun make_perimeters_loop :: "prims \<Rightarrow> nat list \<Rightarrow> nat set \<Rightarrow> layer \<Rightarrow> outcome" where
  "make_perimeters_loop P [] done l = Ok l"
| "make_perimeters_loop P (region_id # rest) done l =
     (if region_id \<in> done then make_perimeters_loop P rest done l
      else (let layerms = find_compatible (regions l) region_id
            in case process_group P region_id layerms l of
                 Failed e l' \<Rightarrow> Failed e l'
               | Ok l' \<Rightarrow> make_perimeters_loop P rest (done \<union> set layerms) l'))"

definition make_perimeters :: "prims \<Rightarrow> layer \<Rightarrow> outcome" where
  "make_perimeters P l = make_perimeters_loop P [0..<length (regions l)] {} l"

text \<open>
  The groups that the outer loop forms, in the order in which it forms them: the same
  loop over the regions and the same set \<open>done\<close>, with the group recorded instead of
  processed.
\<close>

fun perimeter_groups_loop :: "layer_region list \<Rightarrow> nat list \<Rightarrow> nat set \<Rightarrow> nat list list" where
  "perimeter_groups_loop rs [] done = []"
| "perimeter_groups_loop rs (region_id # rest) done =
     (if region_id \<in> done then perimeter_groups_loop rs rest done
      else (let layerms = find_compatible rs region_id
            in layerms # perimeter_groups_loop rs rest (done \<union> set layerms)))"

definition perimeter_groups :: "layer_region list \<Rightarrow> nat list list" where
  "perimeter_groups rs = perimeter_groups_loop rs [0..<length rs] {}"

text \<open>
  Processing a list of groups in order, each led by its first member, stopping at the
  first failure.
\<close>

fun process_groups :: "prims \<Rightarrow> nat list list \<Rightarrow> layer \<Rightarrow> outcome" where
  "process_groups P [] l = Ok l"
| "process_groups P (g # gs) l =
     (case process_group P (hd g) g l of
        Failed e l' \<Rightarrow> Failed e l'
      | Ok l' \<Rightarrow> process_groups P gs l')"

text \<open>
  What the perimeter routine generates for a group of a layer: the pair (perimeter
  surfaces, fill surfaces) of the single-region branch, or of the multi-region branch
  after the merge of the pooled slices.
\<close>

definition group_output :: "prims \<Rightarrow> layer \<Rightarrow> nat list \<Rightarrow> error + surface list \<times> surface list" where
  "group_output P l g =
     (if length g = 1
      then Inr (region_make_perimeters P
                  ((regions l ! hd g)\<lparr>fill_surfaces := [], perimeter_surfaces := []\<rparr>)
                  (slices (regions l ! hd g)))
      else (case merge_buckets P (group_slices l g) of
              Inl e \<Rightarrow> Inl e
            | Inr new_slices \<Rightarrow> Inr (region_make_perimeters P (regions l ! hd g) new_slices)))"

text \<open>
  For the analysis of the outer loop: the regions that have a compatible region before
  position \<open>m\<close>, and the regions that no earlier region is compatible with (these lead
  a group).
\<close>

definition earlier_compatible :: "layer_region list \<Rightarrow> nat \<Rightarrow> nat set" where
  "earlier_compatible rs m =
     {j. j < length rs \<and> (\<exists>k<m. compatible (config (rs ! k)) (config (rs ! j)))}"

definition leader :: "layer_region list \<Rightarrow> nat \<Rightarrow> bool" where
  "leader rs i \<longleftrightarrow> (\<forall>k<i. \<not> compatible (config (rs ! k)) (config (rs ! i)))"

text \<open>
  The layer that a call leaves behind, returned or thrown; and two layers whose regions
  have the same configurations and the same raw slices.
\<close>

definition outcome_layer :: "outcome \<Rightarrow> layer" where
  "outcome_layer r = (case r of Ok l \<Rightarrow> l | Failed e l \<Rightarrow> l)"

definition same_input :: "layer \<Rightarrow> layer \<Rightarrow> bool" where
  "same_input l l' \<longleftrightarrow>
     map config (regions l') = map config (regions l)
     \<and> map slices (regions l') = map slices (regions l)"

section \<open>Example inputs\<close>

text \<open>
  A small geometry of axis-parallel rectangles, for concrete runs: primitives that are
  exact on pairwise disjoint rectangles and that fail on a contour of fewer than three
  vertices (zero area).
\<close>

definition rect :: "int \<Rightarrow> int \<Rightarrow> int \<Rightarrow> int \<Rightarrow> expolygon" where
  "rect x0 y0 x1 y1 = \<lparr>contour = [(x0, y0), (x1, y0), (x1, y1), (x0, y1)], holes = []\<rparr>"

definition ring :: "int \<Rightarrow> int \<Rightarrow> int \<Rightarrow> int \<Rightarrow> expolygon" where
  "ring x0 y0 x1 y1 =
     \<lparr>contour = contour (rect x0 y0 x1 y1),
      holes = [contour (rect (x0 + 1) (y0 + 1) (x1 - 1) (y1 - 1))]\<rparr>"

definition line :: "int \<Rightarrow> int \<Rightarrow> int \<Rightarrow> expolygon" where
  "line x0 x1 y = \<lparr>contour = [(x0, y), (x1, y)], holes = []\<rparr>"

definition degenerate :: "expolygon \<Rightarrow> bool" where
  "degenerate ex \<longleftrightarrow> length (contour ex) < 3"

definition inside_box :: "expolygon \<Rightarrow> expolygon \<Rightarrow> bool" where
  "inside_box a b \<longleftrightarrow>
     (\<forall>p \<in> set (contour a). \<exists>q \<in> set (contour b). \<exists>q' \<in> set (contour b).
        fst q \<le> fst p \<and> fst p \<le> fst q' \<and> snd q \<le> snd p \<and> snd p \<le> snd q')"

definition rect_union :: "polygon list \<Rightarrow> error + expolygon list" where
  "rect_union ps =
     (if \<exists>p \<in> set ps. length p < 3 then Inl DegenerateGeometry
      else Inr (map (\<lambda>p. \<lparr>contour = p, holes = []\<rparr>) ps))"

definition rect_union_ex :: "surface list \<Rightarrow> bool \<Rightarrow> error + expolygon list" where
  "rect_union_ex ss safety_offset =
     (if \<exists>s \<in> set ss. degenerate (expolygon s) then Inl DegenerateGeometry
      else Inr (map expolygon ss))"

definition rect_intersection_ex :: "surface list \<Rightarrow> surface list \<Rightarrow> error + expolygon list" where
  "rect_intersection_ex subject clip =
     (if \<exists>s \<in> set (subject @ clip). degenerate (expolygon s) then Inl DegenerateGeometry
      else Inr (filter (\<lambda>ex. \<exists>c \<in> set clip. inside_box ex (expolygon c)) (map expolygon subject)))"

text \<open>
  A perimeter routine for rectangles, one loop of width 1: a rectangle wider and higher
  than 2 gives a ring (surface type 7) around an inner fill rectangle; a thinner one is a
  thin wall, which gives its medial line as perimeter and no fill.
\<close>

fun rect_perimeter :: "surface \<Rightarrow> surface" where
  "rect_perimeter s =
     (case contour (expolygon s) of
        [(x0, y0), b, (x1, y1), d] \<Rightarrow>
          (if 2 < x1 - x0 \<and> 2 < y1 - y0
           then s\<lparr>surface_type := 7,
                  expolygon := \<lparr>contour = contour (expolygon s),
                                holes = [contour (rect (x0 + 1) (y0 + 1) (x1 - 1) (y1 - 1))]\<rparr>\<rparr>
           else s\<lparr>surface_type := 7,
                  expolygon := \<lparr>contour = [(x0, (y0 + y1) div 2), (x1, (y0 + y1) div 2)],
                                holes = []\<rparr>\<rparr>)
      | _ \<Rightarrow> s\<lparr>surface_type := 7\<rparr>)"

fun rect_fill :: "surface \<Rightarrow> surface list" where
  "rect_fill s =
     (case contour (expolygon s) of
        [(x0, y0), b, (x1, y1), d] \<Rightarrow>
          (if 2 < x1 - x0 \<and> 2 < y1 - y0
           then [s\<lparr>expolygon := rect (x0 + 1) (y0 + 1) (x1 - 1) (y1 - 1)\<rparr>]
           else [])
      | _ \<Rightarrow> [])"

definition rect_make_perimeters :: "layer_region \<Rightarrow> surface list \<Rightarrow> surface list \<times> surface list" where
  "rect_make_perimeters r input = (map rect_perimeter input, concat (map rect_fill input))"

definition rect_prims :: prims where
  "rect_prims = \<lparr>union_polygons = rect_union, union_ex = rect_union_ex,
                 intersection_ex = rect_intersection_ex,
                 region_make_perimeters = rect_make_perimeters\<rparr>"

definition cfg :: "int \<Rightarrow> print_region_config" where
  "cfg n = \<lparr>perimeter_extruder = 1, perimeters = n, perimeter_speed = 60,
            gap_fill_speed = 20, overhangs = True, perimeter_extrusion_width = ''0.45'',
            thin_walls = True, external_perimeters_first = False\<rparr>"

definition surf :: "nat \<Rightarrow> expolygon \<Rightarrow> surface" where
  "surf t ex = \<lparr>surface_type = t, extra_perimeters = 0, expolygon = ex\<rparr>"

text \<open>
  A region with one slice and, from an earlier pass, one fill surface and one perimeter
  surface (each the marker rectangle, of surface type 1).
\<close>

definition stale :: surface where
  "stale = surf 1 (rect 100 100 110 110)"

definition region_with :: "print_region_config \<Rightarrow> expolygon \<Rightarrow> layer_region" where
  "region_with c ex =
     \<lparr>config = c, slices = [surf 3 ex], fill_surfaces = [stale], perimeter_surfaces = [stale]\<rparr>"

definition layer_of :: "layer_region list \<Rightarrow> layer" where
  "layer_of rs = (Layer 0 1 1 1)\<lparr>regions := rs\<rparr>"

text \<open>
  Four layers of two regions each: two large squares with the same configuration (one
  group), the same squares with configurations that differ in the perimeter count (two
  groups), two thin walls with the same configuration, and a large square with a thin
  wall.
\<close>

definition layer_pair :: layer where
  "layer_pair =
     layer_of [region_with (cfg 3) (rect 0 0 10 10), region_with (cfg 3) (rect 20 0 30 10)]"

definition layer_split :: layer where
  "layer_split =
     layer_of [region_with (cfg 3) (rect 0 0 10 10), region_with (cfg 2) (rect 20 0 30 10)]"

definition layer_thin :: layer where
  "layer_thin =
     layer_of [region_with (cfg 3) (rect 0 0 10 2), region_with (cfg 3) (rect 20 0 30 2)]"



text \<open>
  A layer of four regions, one square each, whose first contour points are \<open>(0,0)\<close>,
  \<open>(30,0)\<close>, \<open>(10,0)\<close> and \<open>(-10,0)\<close>, and a layer of one region with two squares.
\<close>

definition layer_row :: layer where
  "layer_row =
     layer_of [region_with (cfg 3) (rect 0 0 5 5), region_with (cfg 3) (rect 30 0 35 5),
               region_with (cfg 3) (rect 10 0 15 5), region_with (cfg 3) (rect (- 10) 0 (- 5) 5)]"

definition layer_single :: layer where
  "layer_single =
     layer_of [\<lparr>config = cfg 3, slices = [surf 3 (rect 0 0 5 5), surf 3 (rect 10 0 15 5)],
                fill_surfaces = [], perimeter_surfaces = []\<rparr>]"

text \<open>
  The rectangle primitives with a union that lists its polygons-with-holes from the last
  to the first (for pairwise disjoint rectangles it is the same exact union), and a layer
  of one region whose only slice is a line of zero area.
\<close>

definition rect_prims_rev :: prims where
  "rect_prims_rev =
     rect_prims\<lparr>union_polygons :=
       (\<lambda>ps. case rect_union ps of Inl e \<Rightarrow> Inl e | Inr u \<Rightarrow> Inr (rev u))\<rparr>"

definition layer_line :: layer where
  "layer_line =
     layer_of [\<lparr>config = cfg 3, slices = [surf 3 (line 0 10 1)],
                fill_surfaces = [], perimeter_surfaces = []\<rparr>]"

text \<open>A store of three stacked layers, the middle one with two regions.\<close>

definition stack3 :: store where
  "stack3 = [0 \<mapsto> (Layer 0 1 1 1)\<lparr>upper_layer := Some 1\<rparr>,
             1 \<mapsto> layer_pair\<lparr>lower_layer := Some 0, upper_layer := Some 2\<rparr>,
             2 \<mapsto> (Layer 2 1 3 3)\<lparr>lower_layer := Some 1\<rparr>]"

section \<open>Region management: index checks\<close>

lemma sint_dec: "0 \<le> sint (i::32 word) \<Longrightarrow> sint (i - 1) = sint i - 1"
proof -
  assume a: "0 \<le> sint i"
  have b: "sint i < 2 ^ 31" using sint_lt [of i] by simp
  have "sint (i - 1) = signed_take_bit 31 (sint i - 1)"
    by (simp add: sint_word_ariths)
  also have "\<dots> = sint i - 1"
    using a b by (intro signed_take_bit_int_eq_self) auto
  finally show ?thesis .
qed

lemma unat_scast_32_64:
  "unat (scast (x::32 word) :: 64 word)
     = (if 0 \<le> sint x then nat (sint x) else nat (2 ^ 64 + sint x))"
proof -
  have lo: "- (2 ^ 31) \<le> sint x" using sint_ge [of x] by simp
  have hi: "sint x < 2 ^ 31" using sint_lt [of x] by simp
  have "uint (word_of_int (sint x) :: 64 word) = sint x mod 2 ^ 64"
    by (simp only: uint_word_of_int len_bit0 len_num1 mult_numeral_left_semiring_numeral) simp
  then have "unat (scast x :: 64 word) = nat (sint x mod 2 ^ 64)"
    by (simp only: scast_eq unat_eq_nat_uint)
  moreover have "sint x mod 2 ^ 64 = (if 0 \<le> sint x then sint x else 2 ^ 64 + sint x)"
  proof (cases "0 \<le> sint x")
    case True
    then show ?thesis using hi by (simp add: mod_pos_pos_trivial)
  next
    case False
    have "(sint x + 2 ^ 64) mod 2 ^ 64 = sint x + 2 ^ 64"
      using lo False by (intro mod_pos_pos_trivial) auto
    then show ?thesis using False by (simp add: add.commute)
  qed
  ultimately show ?thesis by simp
qed

lemma sint_size_minus_1:
  assumes "n < 2 ^ 31"
  shows "sint (word_of_nat n - 1 :: 32 word) = int n - 1"
proof -
  have "signed_take_bit 31 (int n) = int n"
    using assms by (intro signed_take_bit_int_eq_self) auto
  then have n: "sint (word_of_nat n :: 32 word) = int n"
    by (simp add: signed_of_nat)
  have "sint (word_of_nat n - 1 :: 32 word) = signed_take_bit 31 (int n - 1)"
    by (simp add: sint_word_ariths n)
  also have "\<dots> = int n - 1"
    using assms by (intro signed_take_bit_int_eq_self) auto
  finally show ?thesis .
qed

lemma get_region_eq:
  assumes "length (regions l) < 2 ^ 31"
  shows "get_region l idx =
           (if 0 \<le> sint idx \<and> sint idx < int (length (regions l))
            then Inr (regions l ! nat (sint idx)) else Inl OutOfRange)"
proof (cases "0 \<le> sint idx")
  case True
  then show ?thesis
    by (auto simp: get_region_def unat_scast_32_64 Let_def)
next
  case False
  have lo: "- (2 ^ 31) \<le> sint idx" using sint_ge [of idx] by simp
  have "(2::int) ^ 31 \<le> 2 ^ 64 - 2 ^ 31" by simp
  moreover have "int (length (regions l)) < 2 ^ 31"
    using assms by (simp only: of_nat_less_numeral_power_cancel_iff)
  ultimately have "int (length (regions l)) < 2 ^ 64 + sint idx"
    using lo by linarith
  then have "length (regions l) < nat (2 ^ 64 + sint idx)"
    by (simp only: zless_nat_eq_int_zless)
  then show ?thesis using False
    by (simp add: get_region_def unat_scast_32_64 Let_def)
qed

lemma clear_regions_from_all:
  "sint i = int (length (regions l)) - 1 \<Longrightarrow> clear_regions_from i l = Inr (l\<lparr>regions := []\<rparr>)"
proof (induction "length (regions l)" arbitrary: i l)
  case 0
  from 0(1) have nil: "regions l = []" by simp
  with 0(2) have "\<not> 0 \<le> sint i" by simp
  then show ?case using nil by (subst clear_regions_from.simps) simp
next
  case (Suc m)
  let ?l' = "l\<lparr>regions := take m (regions l) @ drop (Suc m) (regions l)\<rparr>"
  have n: "length (regions l) = Suc m" using Suc.hyps(2) by simp
  have i: "sint i = int m" using Suc.prems n by simp
  have del: "delete_region l i = Inr ?l'"
    by (simp add: delete_region_def i n)
  have len: "length (regions ?l') = m"
    by (simp add: n)
  have "sint (i - 1) = int m - 1"
    using sint_dec [of i] by (simp add: i)
  then have "sint (i - 1) = int (length (regions ?l')) - 1"
    by (simp only: len)
  from Suc.hyps(1) [OF len [symmetric] this]
  have "clear_regions_from (i - 1) ?l' = Inr (l\<lparr>regions := []\<rparr>)"
    by simp
  then show ?case
    by (subst clear_regions_from.simps) (simp add: del i)
qed

lemma clear_regions_all:
  "length (regions l) < 2 ^ 31 \<Longrightarrow> clear_regions l = Inr (l\<lparr>regions := []\<rparr>)"
  unfolding clear_regions_def
  by (rule clear_regions_from_all) (simp add: sint_size_minus_1)

text \<open>
  Claim C4, as the code has it. For a layer whose region count fits an \<open>int\<close>:
  \<open>get_region(index)\<close> returns the region for every index inside
  \<open>[0, region_count)\<close> and fails with \<open>OutOfRange\<close> for every index outside of it;
  \<open>delete_region(index)\<close> removes exactly the region at the index for every index inside
  the range, and outside of it reports no \<open>OutOfRange\<close>: it makes no check, and the
  access is undefined.
\<close>

theorem region_index_checks:
  assumes "region_count l < 2 ^ 31"
  shows "(0 \<le> sint idx \<and> sint idx < int (region_count l) \<longrightarrow>
            get_region l idx = Inr (regions l ! nat (sint idx))
            \<and> (\<exists>l'. delete_region l idx = Inr l'
                   \<and> regions l' = take (nat (sint idx)) (regions l)
                                    @ drop (Suc (nat (sint idx))) (regions l)
                   \<and> region_count l' = region_count l - 1))
       \<and> (\<not> (0 \<le> sint idx \<and> sint idx < int (region_count l)) \<longrightarrow>
            get_region l idx = Inl OutOfRange \<and> delete_region l idx = Inl Undefined)"
proof -
  have len: "length (regions l) < 2 ^ 31" using assms by (simp add: region_count_def)
  show ?thesis
    unfolding region_count_def get_region_eq [OF len] delete_region_def
    by auto
qed

theorem region_index_checks_witness:
  "region_count layer_split < 2 ^ 31
   \<and> get_region layer_split 1 = Inr (region_with (cfg 2) (rect 20 0 30 10))
   \<and> (\<exists>l'. delete_region layer_split 1 = Inr l' \<and> region_count l' = 1)
   \<and> get_region layer_split (- 1) = Inl OutOfRange
   \<and> get_region layer_split 2 = Inl OutOfRange
   \<and> delete_region layer_split 2 = Inl Undefined"
proof -
  have n: "region_count layer_split < 2 ^ 31"
    by (simp add: region_count_def layer_split_def layer_of_def)
  show ?thesis
    using n region_index_checks [OF n, of 1] region_index_checks [OF n, of "- 1"]
      region_index_checks [OF n, of 2]
    by (auto simp: region_count_def layer_split_def layer_of_def)
qed

text \<open>
  Claim C4 as stated fails for \<open>delete_region\<close>: on a layer without regions, index 0
  and index -1 are outside the range and no \<open>OutOfRange\<close> is reported.
\<close>

theorem delete_region_unchecked_counterexample:
  "region_count (layer_of []) = 0
   \<and> delete_region (layer_of []) 0 \<noteq> Inl OutOfRange
   \<and> delete_region (layer_of []) (- 1) \<noteq> Inl OutOfRange"
  by (simp add: region_count_def layer_of_def delete_region_def)

section \<open>The chain visits every point once, nearest first\<close>

lemma nearest_point_mem: "nearest_point c b xs \<in> set (b # xs)"
  by (induction xs arbitrary: b) auto

lemma mset_chain: "mset (chain c ys) = mset (map fst ys)"
proof (induction c ys rule: chain.induct)
  case (1 c)
  then show ?case by simp
next
  case (2 c x xs)
  define b where "b = nearest_point c x xs"
  have mem: "b \<in> set (x # xs)" unfolding b_def by (rule nearest_point_mem)
  have ih: "mset (chain (snd b) (remove1 b (x # xs))) = mset (map fst (remove1 b (x # xs)))"
    using 2 [of b] by (simp add: b_def)
  have "mset (map fst (x # xs)) = add_mset (fst b) (mset (map fst (remove1 b (x # xs))))"
  proof -
    have "mset (x # xs) = add_mset b (mset (remove1 b (x # xs)))"
      using mem by (simp only: mset_remove1 insert_DiffM set_mset_mset)
    then have "image_mset fst (mset (x # xs)) = image_mset fst (add_mset b (mset (remove1 b (x # xs))))"
      by (rule arg_cong)
    then show ?thesis by (simp only: mset_map image_mset_add_mset)
  qed
  moreover have "chain c (x # xs) = fst b # chain (snd b) (remove1 b (x # xs))"
    by (simp add: b_def Let_def)
  ultimately show ?case using ih by simp
qed

lemma mset_chained_path: "mset (chained_path pts) = mset [0..<length pts]"
proof (cases pts)
  case Nil
  then show ?thesis by (simp add: chained_path_def)
next
  case (Cons p ps)
  have "map fst (zip [0..<length pts] pts) = [0..<length pts]"
    by (simp add: map_fst_zip)
  then show ?thesis using Cons by (simp add: chained_path_def mset_chain del: upt_Suc)
qed

lemma set_chained_path: "set (chained_path pts) = {0..<length pts}"
  using mset_chained_path [of pts, THEN arg_cong, of set_mset] by simp

lemma length_chained_path: "length (chained_path pts) = length pts"
  using mset_chained_path [of pts, THEN arg_cong, of size] by simp

lemma distinct_chained_path: "distinct (chained_path pts)"
  using mset_chained_path [of pts] distinct_upt mset_eq_imp_distinct_iff by blast

lemma mset_reorder:
  assumes "length pts = length sl"
  shows "mset (map (\<lambda>i. sl ! i) (chained_path pts)) = mset sl"
proof -
  have "mset (map (\<lambda>i. sl ! i) (chained_path pts)) = image_mset (\<lambda>i. sl ! i) (mset [0..<length pts])"
    by (simp only: mset_map mset_chained_path)
  also have "\<dots> = mset (map (\<lambda>i. sl ! i) [0..<length sl])"
    by (simp only: mset_map assms)
  also have "\<dots> = mset sl" by (simp only: map_nth)
  finally show ?thesis .
qed

lemma ordering_points_of_Inr:
  "ordering_points_of sl = Inr pts \<Longrightarrow> pts = map (\<lambda>ex. hd (contour ex)) sl"
  by (induction sl arbitrary: pts) (auto split: list.splits sum.splits)

lemma ordering_points_of_ok:
  "\<forall>ex \<in> set sl. contour ex \<noteq> [] \<Longrightarrow> ordering_points_of sl = Inr (map (\<lambda>ex. hd (contour ex)) sl)"
  by (induction sl) (auto split: list.splits sum.splits)

lemma nearest_point_least:
  assumes "sorted_wrt (\<lambda>a b. fst a < fst b) (best # xs)" and "y \<in> set (best # xs)"
  shows "preferred_candidate c (nearest_point c best xs) y"
  using assms
proof (induction xs arbitrary: best y)
  case Nil
  then show ?case by (simp add: preferred_candidate_def)
next
  case (Cons x xs)
  let ?nb = "if dist2 c (snd x) < dist2 c (snd best) then x else best"
  have srt: "sorted_wrt (\<lambda>a b. fst a < fst b) (?nb # xs)"
    using Cons.prems(1) by auto
  have r: "nearest_point c best (x # xs) = nearest_point c ?nb xs" by simp
  have nb: "preferred_candidate c (nearest_point c ?nb xs) ?nb"
    by (rule Cons.IH [OF srt]) simp
  show ?case
  proof (cases "y \<in> set (?nb # xs)")
    case True
    then show ?thesis unfolding r by (rule Cons.IH [OF srt])
  next
    case False
    show ?thesis
    proof (cases "dist2 c (snd x) < dist2 c (snd best)")
      case True
      with False Cons.prems(2) have "y = best" by auto
      with nb True show ?thesis unfolding r by (auto simp: preferred_candidate_def)
    next
      case F: False
      with False Cons.prems(2) have y: "y = x" by auto
      have "fst best < fst x" using Cons.prems(1) by simp
      with nb F y show ?thesis unfolding r by (auto simp: preferred_candidate_def)
    qed
  qed
qed


lemma sorted_wrt_remove1: "sorted_wrt P xs \<Longrightarrow> sorted_wrt P (remove1 b xs)"
proof (induction xs)
  case Nil
  then show ?case by simp
next
  case (Cons x xs)
  have "set (remove1 b xs) \<subseteq> set xs" by (rule set_remove1_subset)
  with Cons show ?case by auto
qed

lemma chain_greedy:
  assumes "sorted_wrt (\<lambda>a b. fst a < fst b) cands"
    and "\<forall>x \<in> set cands. snd x = pts ! fst x"
    and "k < length (chain c cands)"
    and "j \<in> fst ` set cands"
    and "j \<notin> set (take k (chain c cands))"
  shows "preferred (case k of 0 \<Rightarrow> c | Suc k' \<Rightarrow> pts ! (chain c cands ! k')) pts (chain c cands ! k) j"
  using assms
proof (induction c cands arbitrary: k rule: chain.induct)
  case (1 c)
  then show ?case by simp
next
  case (2 c x xs)
  define b where "b = nearest_point c x xs"
  define ord' where "ord' = chain (snd b) (remove1 b (x # xs))"
  have ord: "chain c (x # xs) = fst b # ord'"
    by (simp add: b_def ord'_def Let_def)
  have mem: "b \<in> set (x # xs)" unfolding b_def by (rule nearest_point_mem)
  from "2.prems"(4) obtain y where y: "y \<in> set (x # xs)" "j = fst y" by blast
  have py: "snd y = pts ! fst y" and pb: "snd b = pts ! fst b"
    using "2.prems"(2) y(1) mem by auto
  show ?case
  proof (cases k)
    case 0
    have "preferred_candidate c b y" unfolding b_def
      by (rule nearest_point_least [OF "2.prems"(1) y(1)])
    then show ?thesis using 0 py pb y(2) by (simp add: ord preferred_candidate_def preferred_def del: chain.simps)
  next
    case (Suc k')
    have jb: "j \<noteq> fst b" and jt: "j \<notin> set (take k' ord')"
      using "2.prems"(5) Suc by (simp_all add: ord del: chain.simps)
    have "y \<noteq> b" using jb y(2) by auto
    then have "y \<in> set (remove1 b (x # xs))" using y(1) in_set_remove1 [of y b "x # xs"] by blast
    then have j': "j \<in> fst ` set (remove1 b (x # xs))" using y(2) by blast
    have s': "sorted_wrt (\<lambda>a b. fst a < fst b) (remove1 b (x # xs))"
      by (rule sorted_wrt_remove1 [OF "2.prems"(1)])
    have p': "\<forall>x \<in> set (remove1 b (x # xs)). snd x = pts ! fst x"
      using "2.prems"(2) set_remove1_subset [of b "x # xs"] by blast
    have k': "k' < length (chain (snd b) (remove1 b (x # xs)))"
      using "2.prems"(3) Suc by (simp add: ord ord'_def del: chain.simps)
    have "preferred (case k' of 0 \<Rightarrow> snd b | Suc k'' \<Rightarrow> pts ! (ord' ! k'')) pts (ord' ! k') j"
      unfolding ord'_def
      by (rule "2.IH" [OF b_def s' p' k' j']) (use jt in \<open>simp add: ord'_def\<close>)
    then show ?thesis using Suc pb by (cases k') (simp_all add: ord del: chain.simps)
  qed
qed

lemma zip_upt_sorted: "sorted_wrt (\<lambda>a b. fst a < fst b) (zip [0..<length pts] pts)"
proof -
  have "sorted_wrt (<) (map fst (zip [0..<length pts] pts))"
    by (simp add: map_fst_zip)
  then show ?thesis by (simp only: sorted_wrt_map)
qed

lemma zip_upt_points: "\<forall>x \<in> set (zip [0..<length pts] pts). snd x = pts ! fst x"
  by (auto simp: in_set_zip)

lemma greedy_chained_path: "greedy_chain pts (chained_path pts)"
proof (cases pts)
  case Nil
  then show ?thesis by (simp add: greedy_chain_def chained_path_def)
next
  case (Cons p ps)
  let ?ord = "chain p (zip [0..<length pts] pts)"
  have cp: "chained_path pts = ?ord" using Cons by (simp add: chained_path_def)
  have "set (map fst (zip [0..<length pts] pts)) = set [0..<length pts]"
    by (simp only: map_fst_zip length_upt diff_zero)
  then have fs: "fst ` set (zip [0..<length pts] pts) = {0..<length pts}"
    by (simp only: set_map set_upt)
  have "preferred (pts ! (?ord ! k)) pts (?ord ! Suc k) j"
    if k: "k < length ?ord - 1" and j: "j < length pts" and nj: "j \<notin> set (take (Suc k) ?ord)" for k j
  proof -
    have "preferred (case Suc k of 0 \<Rightarrow> p | Suc k' \<Rightarrow> pts ! (?ord ! k')) pts (?ord ! Suc k) j"
      by (rule chain_greedy [OF zip_upt_sorted zip_upt_points _ _ nj]) (use k j fs in auto)
    then show ?thesis by simp
  qed
  then show ?thesis unfolding greedy_chain_def cp by auto
qed

section \<open>make_slices: islands, order, replacement\<close>

lemma populate_slices_ok:
  assumes "\<forall>ex \<in> set sl. contour ex \<noteq> []"
  shows "populate_slices sl l =
           Ok (l\<lparr>layer_slices := map (\<lambda>i. sl ! i) (chained_path (map (\<lambda>ex. hd (contour ex)) sl))\<rparr>)"
  by (simp add: populate_slices_def ordering_points_of_ok [OF assms])

lemma populate_slices_Ok:
  assumes "populate_slices sl l = Ok l'"
  shows "(\<forall>ex \<in> set sl. contour ex \<noteq> [])
         \<and> l' = l\<lparr>layer_slices := map (\<lambda>i. sl ! i) (chained_path (map (\<lambda>ex. hd (contour ex)) sl))\<rparr>"
proof -
  from assms obtain pts where pts: "ordering_points_of sl = Inr pts"
    by (auto simp: populate_slices_def Let_def split: sum.splits)
  have ne: "\<forall>ex \<in> set sl. contour ex \<noteq> []"
    using pts by (induction sl arbitrary: pts) (auto split: list.splits sum.splits)
  show ?thesis using assms ne by (simp add: populate_slices_ok)
qed

lemma mset_reordered:
  "mset (map (\<lambda>i. sl ! i) (chained_path (map f sl))) = mset sl"
  by (rule mset_reorder) simp

lemma merged_slices_regions:
  "regions l2 = regions l \<Longrightarrow> merged_slices P l2 = merged_slices P l"
  by (simp add: merged_slices_def union_of_regions_def)

lemma populate_slices_old:
  "populate_slices sl (l\<lparr>layer_slices := old\<rparr>) = populate_slices sl l"
  by (simp add: populate_slices_def)

lemma make_slices_layer_single:
  "make_slices rect_prims layer_single =
     Ok (layer_single\<lparr>layer_slices := [rect 0 0 5 5, rect 10 0 15 5]\<rparr>)"
  by (simp add: rect_prims_def rect_def cfg_def surf_def layer_of_def Layer_def layer_single_def
      make_slices_def merged_slices_def populate_slices_def chained_path_def
      to_expolygons_def dist2_def)

lemma make_slices_layer_row:
  "make_slices rect_prims layer_row =
     Ok (layer_row\<lparr>layer_slices :=
           [rect 0 0 5 5, rect 10 0 15 5, rect 30 0 35 5, rect (- 10) 0 (- 5) 5]\<rparr>)"
  by (simp add: rect_prims_def rect_union_def rect_def cfg_def surf_def stale_def region_with_def
      layer_of_def Layer_def layer_row_def make_slices_def merged_slices_def populate_slices_def
      chained_path_def to_expolygons_def to_polygons_def union_of_regions_def dist2_def)

text \<open>
  Claim C10. On a layer without regions, \<open>make_slices\<close> takes the union of no polygon;
  when that union is empty, as it is for the boolean union, the call returns and leaves the
  layer with no island. Whenever \<open>make_slices\<close> returns, the layer it leaves is the same
  whatever the previous island set was: nothing of the previous slices remains.
\<close>

theorem make_slices_wholesale:
  "(regions l = [] \<longrightarrow> union_polygons P [] = Inr [] \<longrightarrow>
      make_slices P l = Ok (l\<lparr>layer_slices := []\<rparr>))
   \<and> (make_slices P l = Ok l' \<longrightarrow> make_slices P (l\<lparr>layer_slices := old\<rparr>) = Ok l')"
proof (intro conjI impI)
  assume "regions l = []" and "union_polygons P [] = Inr []"
  then show "make_slices P l = Ok (l\<lparr>layer_slices := []\<rparr>)"
    by (simp add: make_slices_def merged_slices_def union_of_regions_def populate_slices_def
        chained_path_def)
next
  assume "make_slices P l = Ok l'"
  moreover have "merged_slices P (l\<lparr>layer_slices := old\<rparr>) = merged_slices P l"
    by (rule merged_slices_regions) simp
  ultimately show "make_slices P (l\<lparr>layer_slices := old\<rparr>) = Ok l'"
    by (auto simp: make_slices_def populate_slices_old split: sum.splits)
qed

theorem make_slices_wholesale_witness:
  "make_slices rect_prims ((layer_of [])\<lparr>layer_slices := [rect 0 0 1 1]\<rparr>) = Ok (layer_of [])
   \<and> make_slices rect_prims (layer_single\<lparr>layer_slices := [rect 7 7 8 8]\<rparr>)
       = Ok (layer_single\<lparr>layer_slices := [rect 0 0 5 5, rect 10 0 15 5]\<rparr>)"
proof -
  have r: "regions ((layer_of [])\<lparr>layer_slices := [rect 0 0 1 1]\<rparr>) = []"
    by (simp add: layer_of_def)
  have u: "union_polygons rect_prims [] = Inr []"
    by (simp add: rect_prims_def rect_union_def)
  show ?thesis
    using make_slices_wholesale [of "(layer_of [])\<lparr>layer_slices := [rect 0 0 1 1]\<rparr>" rect_prims] r u
      make_slices_wholesale [of layer_single rect_prims _ "[rect 7 7 8 8]"] make_slices_layer_single
    by (simp add: layer_of_def Layer_def)
qed

lemma make_slices_single_region:
  assumes "regions l = [r]" and "\<forall>s \<in> set (slices r). contour (expolygon s) \<noteq> []"
  shows "make_slices P l =
           Ok (l\<lparr>layer_slices := map (\<lambda>i. to_expolygons (slices r) ! i)
                 (chained_path (map (\<lambda>ex. hd (contour ex)) (to_expolygons (slices r))))\<rparr>)"
proof -
  have ne: "\<forall>ex \<in> set (to_expolygons (slices r)). contour ex \<noteq> []"
    using assms(2) by (simp add: to_expolygons_def)
  show ?thesis
    using assms(1) by (simp add: make_slices_def merged_slices_def populate_slices_ok [OF ne])
qed

lemma make_slices_general_single_region:
  assumes "regions l = [r]"
  shows "make_slices_general P l =
           (case union_polygons P (to_polygons (slices r)) of
              Inl e \<Rightarrow> Failed e l
            | Inr u \<Rightarrow> populate_slices u l)"
  using assms by (simp add: make_slices_general_def union_of_regions_def)

lemma make_slices_rev_layer_single:
  "make_slices rect_prims_rev layer_single =
     Ok (layer_single\<lparr>layer_slices := [rect 0 0 5 5, rect 10 0 15 5]\<rparr>)"
  by (simp add: rect_prims_rev_def rect_prims_def rect_def cfg_def surf_def layer_of_def Layer_def
      layer_single_def make_slices_def merged_slices_def populate_slices_def chained_path_def
      to_expolygons_def dist2_def)

lemma make_slices_general_rev_layer_single:
  "make_slices_general rect_prims_rev layer_single =
     Ok (layer_single\<lparr>layer_slices := [rect 10 0 15 5, rect 0 0 5 5]\<rparr>)"
  by (simp add: rect_prims_rev_def rect_prims_def rect_union_def rect_def cfg_def surf_def
      layer_of_def Layer_def layer_single_def make_slices_general_def union_of_regions_def
      populate_slices_def chained_path_def to_polygons_def dist2_def)

text \<open>
  Claim C7, as the code has it. For a layer with exactly one region, whose slices have
  contours with at least one vertex, \<open>make_slices\<close> returns: the islands are the
  region's raw slices in the order of the chain (the same contour set, up to order) and the
  layer is otherwise unchanged. The general union path on this layer stores the output of
  the union in the order of the chain. It is identical to the shortcut when the union
  returns the region's polygons-with-holes in the same order; when the union returns them
  in another order, the two paths have the same islands up to order only; and when the
  union fails, the general path fails where the shortcut returns.
\<close>

theorem single_region_shortcut:
  assumes "regions l = [r]" and "\<forall>s \<in> set (slices r). contour (expolygon s) \<noteq> []"
  shows "\<exists>l'. make_slices P l = Ok l'
           \<and> layer_slices l' = map (\<lambda>i. to_expolygons (slices r) ! i)
                 (chained_path (map (\<lambda>ex. hd (contour ex)) (to_expolygons (slices r))))
           \<and> mset (layer_slices l') = mset (to_expolygons (slices r))
           \<and> l'\<lparr>layer_slices := []\<rparr> = l\<lparr>layer_slices := []\<rparr>
           \<and> (\<forall>u. union_polygons P (to_polygons (slices r)) = Inr u \<longrightarrow>
                 (u = to_expolygons (slices r) \<longrightarrow> make_slices_general P l = Ok l')
                 \<and> ((\<forall>ex \<in> set u. contour ex \<noteq> []) \<longrightarrow>
                      (\<exists>l''. make_slices_general P l = Ok l''
                         \<and> layer_slices l'' = map (\<lambda>i. u ! i)
                               (chained_path (map (\<lambda>ex. hd (contour ex)) u))
                         \<and> mset (layer_slices l'') = mset u
                         \<and> l''\<lparr>layer_slices := []\<rparr> = l'\<lparr>layer_slices := []\<rparr>
                         \<and> (mset u = mset (to_expolygons (slices r)) \<longrightarrow>
                              mset (layer_slices l'') = mset (layer_slices l')))))
           \<and> (\<forall>e. union_polygons P (to_polygons (slices r)) = Inl e \<longrightarrow>
                 make_slices_general P l = Failed e l)"
proof -
  let ?sl = "to_expolygons (slices r)"
  let ?l' = "l\<lparr>layer_slices := map (\<lambda>i. ?sl ! i) (chained_path (map (\<lambda>ex. hd (contour ex)) ?sl))\<rparr>"
  have ne: "\<forall>ex \<in> set ?sl. contour ex \<noteq> []"
    using assms(2) by (simp add: to_expolygons_def)
  have m: "make_slices P l = Ok ?l'"
    by (rule make_slices_single_region [OF assms])
  have ms: "mset (layer_slices ?l') = mset ?sl"
    using mset_reordered [of ?sl "\<lambda>ex. hd (contour ex)"] by simp
  note g = make_slices_general_single_region [OF assms(1), of P]
  have same: "make_slices_general P l = Ok ?l'"
    if "union_polygons P (to_polygons (slices r)) = Inr u" "u = ?sl" for u
    using that g by (simp add: populate_slices_ok [OF ne])
  have gen: "\<exists>l''. make_slices_general P l = Ok l''
                \<and> layer_slices l'' = map (\<lambda>i. u ! i) (chained_path (map (\<lambda>ex. hd (contour ex)) u))
                \<and> mset (layer_slices l'') = mset u
                \<and> l''\<lparr>layer_slices := []\<rparr> = ?l'\<lparr>layer_slices := []\<rparr>
                \<and> (mset u = mset ?sl \<longrightarrow> mset (layer_slices l'') = mset (layer_slices ?l'))"
    if u: "union_polygons P (to_polygons (slices r)) = Inr u" "\<forall>ex \<in> set u. contour ex \<noteq> []" for u
  proof -
    let ?l'' = "l\<lparr>layer_slices := map (\<lambda>i. u ! i) (chained_path (map (\<lambda>ex. hd (contour ex)) u))\<rparr>"
    have "make_slices_general P l = Ok ?l''"
      using u(1) g by (simp add: populate_slices_ok [OF u(2)])
    moreover have "mset (layer_slices ?l'') = mset u"
      using mset_reordered [of u "\<lambda>ex. hd (contour ex)"] by simp
    ultimately show ?thesis using ms by simp
  qed
  have fail: "make_slices_general P l = Failed e l"
    if "union_polygons P (to_polygons (slices r)) = Inl e" for e
    using that g by simp
  have sel: "layer_slices ?l' = map (\<lambda>i. ?sl ! i) (chained_path (map (\<lambda>ex. hd (contour ex)) ?sl))"
    by simp
  have rest: "?l'\<lparr>layer_slices := []\<rparr> = l\<lparr>layer_slices := []\<rparr>"
    by simp
  have U: "\<forall>u. union_polygons P (to_polygons (slices r)) = Inr u \<longrightarrow>
                 (u = ?sl \<longrightarrow> make_slices_general P l = Ok ?l')
                 \<and> ((\<forall>ex \<in> set u. contour ex \<noteq> []) \<longrightarrow>
                      (\<exists>l''. make_slices_general P l = Ok l''
                         \<and> layer_slices l'' = map (\<lambda>i. u ! i)
                               (chained_path (map (\<lambda>ex. hd (contour ex)) u))
                         \<and> mset (layer_slices l'') = mset u
                         \<and> l''\<lparr>layer_slices := []\<rparr> = ?l'\<lparr>layer_slices := []\<rparr>
                         \<and> (mset u = mset ?sl \<longrightarrow>
                              mset (layer_slices l'') = mset (layer_slices ?l'))))"
    using same gen by blast
  have F: "\<forall>e. union_polygons P (to_polygons (slices r)) = Inl e \<longrightarrow>
                 make_slices_general P l = Failed e l"
    using fail by blast
  show ?thesis
    by (rule exI [of _ ?l']) (intro conjI m sel ms rest U F)
qed

theorem single_region_shortcut_witness:
  "make_slices_general rect_prims layer_single = make_slices rect_prims layer_single
   \<and> (\<exists>l' l''. make_slices rect_prims_rev layer_single = Ok l'
         \<and> make_slices_general rect_prims_rev layer_single = Ok l''
         \<and> mset (layer_slices l') = mset [rect 0 0 5 5, rect 10 0 15 5]
         \<and> mset (layer_slices l'') = mset (layer_slices l'))
   \<and> (\<exists>l'. make_slices rect_prims layer_line = Ok l')
   \<and> make_slices_general rect_prims layer_line = Failed DegenerateGeometry layer_line"
proof -
  let ?r = "\<lparr>config = cfg 3, slices = [surf 3 (rect 0 0 5 5), surf 3 (rect 10 0 15 5)],
             fill_surfaces = [], perimeter_surfaces = []\<rparr>"
  let ?q = "\<lparr>config = cfg 3, slices = [surf 3 (line 0 10 1)],
             fill_surfaces = [], perimeter_surfaces = []\<rparr>"
  have r: "regions layer_single = [?r]"
    by (simp add: layer_single_def layer_of_def)
  have ne: "\<forall>s \<in> set (slices ?r). contour (expolygon s) \<noteq> []"
    by (simp add: surf_def rect_def)
  have sl: "to_expolygons (slices ?r) = [rect 0 0 5 5, rect 10 0 15 5]"
    by (simp add: to_expolygons_def surf_def)
  have u: "union_polygons rect_prims (to_polygons (slices ?r)) = Inr (to_expolygons (slices ?r))"
    by (simp add: rect_prims_def rect_union_def to_polygons_def to_expolygons_def surf_def rect_def)
  have v: "union_polygons rect_prims_rev (to_polygons (slices ?r)) = Inr [rect 10 0 15 5, rect 0 0 5 5]"
    by (simp add: rect_prims_rev_def rect_prims_def rect_union_def to_polygons_def surf_def rect_def)
  have vne: "\<forall>ex \<in> set [rect 10 0 15 5, rect 0 0 5 5]. contour ex \<noteq> []"
    by (simp add: rect_def)
  have vm: "mset [rect 10 0 15 5, rect 0 0 5 5] = mset (to_expolygons (slices ?r))"
    by (simp add: to_expolygons_def surf_def)
  have q: "regions layer_line = [?q]"
    by (simp add: layer_line_def layer_of_def)
  have qne: "\<forall>s \<in> set (slices ?q). contour (expolygon s) \<noteq> []"
    by (simp add: surf_def line_def)
  have w: "union_polygons rect_prims (to_polygons (slices ?q)) = Inl DegenerateGeometry"
    by (simp add: rect_prims_def rect_union_def to_polygons_def surf_def line_def)
  have a: "make_slices_general rect_prims layer_single = make_slices rect_prims layer_single"
    using single_region_shortcut [OF r ne, of rect_prims] u by auto
  have b: "\<exists>l' l''. make_slices rect_prims_rev layer_single = Ok l'
         \<and> make_slices_general rect_prims_rev layer_single = Ok l''
         \<and> mset (layer_slices l') = mset [rect 0 0 5 5, rect 10 0 15 5]
         \<and> mset (layer_slices l'') = mset (layer_slices l')"
    using single_region_shortcut [OF r ne, of rect_prims_rev] v vne vm sl by (metis (no_types, lifting))
  have c: "(\<exists>l'. make_slices rect_prims layer_line = Ok l')
           \<and> make_slices_general rect_prims layer_line = Failed DegenerateGeometry layer_line"
    using single_region_shortcut [OF q qne, of rect_prims] w by blast
  show ?thesis using a b c by blast
qed

text \<open>
  Claim C7 as stated fails in its second half. The region of \<open>layer_single\<close> has two
  disjoint squares. With the union that lists the same two squares from the last to the
  first, the shortcut stores the islands in the order of the raw slices and the general
  path stores them in the opposite order: the two paths are not identical.
\<close>

theorem shortcut_differs_from_union_path_counterexample:
  "length (regions layer_single) = 1
   \<and> to_expolygons (slices (hd (regions layer_single))) = [rect 0 0 5 5, rect 10 0 15 5]
   \<and> union_polygons rect_prims_rev (to_polygons (slices (hd (regions layer_single))))
       = Inr [rect 10 0 15 5, rect 0 0 5 5]
   \<and> make_slices rect_prims_rev layer_single
       = Ok (layer_single\<lparr>layer_slices := [rect 0 0 5 5, rect 10 0 15 5]\<rparr>)
   \<and> make_slices_general rect_prims_rev layer_single
       = Ok (layer_single\<lparr>layer_slices := [rect 10 0 15 5, rect 0 0 5 5]\<rparr>)
   \<and> make_slices rect_prims_rev layer_single \<noteq> make_slices_general rect_prims_rev layer_single"
proof -
  have "to_expolygons (slices (hd (regions layer_single))) = [rect 0 0 5 5, rect 10 0 15 5]"
    by (simp add: layer_single_def layer_of_def to_expolygons_def surf_def)
  moreover have "union_polygons rect_prims_rev (to_polygons (slices (hd (regions layer_single))))
       = Inr [rect 10 0 15 5, rect 0 0 5 5]"
    by (simp add: rect_prims_rev_def rect_prims_def rect_union_def layer_single_def layer_of_def
        to_polygons_def surf_def rect_def)
  moreover have "length (regions layer_single) = 1"
    by (simp add: layer_single_def layer_of_def)
  moreover have "[rect 0 0 5 5, rect 10 0 15 5] \<noteq> [rect 10 0 15 5, rect 0 0 5 5]"
    by (simp add: rect_def)
  then have "layer_single\<lparr>layer_slices := [rect 0 0 5 5, rect 10 0 15 5]\<rparr>
             \<noteq> layer_single\<lparr>layer_slices := [rect 10 0 15 5, rect 0 0 5 5]\<rparr>"
    by (metis layer.select_convs(8) layer.surjective layer.update_convs(8))
  ultimately show ?thesis
    by (simp add: make_slices_rev_layer_single make_slices_general_rev_layer_single)
qed

text \<open>
  Claim C8. When \<open>make_slices\<close> returns, the islands are the merged slices reordered by
  the chain over the first points of their contours: a permutation of the merged slices
  in which every next island is the one nearest to the island before it among those not yet
  placed, the one of lowest input index among ties. The order depends on the regions only:
  any layer with the same regions, in the same order, gets the same islands in the same
  order.
\<close>

theorem make_slices_deterministic_order:
  assumes "make_slices P l = Ok l'"
  shows "\<exists>sl. merged_slices P l = Inr sl
           \<and> (\<forall>ex \<in> set sl. contour ex \<noteq> [])
           \<and> layer_slices l' = map (\<lambda>i. sl ! i) (chained_path (map (\<lambda>ex. hd (contour ex)) sl))
           \<and> distinct (chained_path (map (\<lambda>ex. hd (contour ex)) sl))
           \<and> set (chained_path (map (\<lambda>ex. hd (contour ex)) sl)) = {0..<length sl}
           \<and> greedy_chain (map (\<lambda>ex. hd (contour ex)) sl)
                (chained_path (map (\<lambda>ex. hd (contour ex)) sl))
           \<and> (\<forall>l2. regions l2 = regions l \<longrightarrow>
                 (\<exists>l2'. make_slices P l2 = Ok l2' \<and> layer_slices l2' = layer_slices l'))"
proof -
  from assms obtain sl where sl: "merged_slices P l = Inr sl" and pop: "populate_slices sl l = Ok l'"
    by (auto simp: make_slices_def split: sum.splits)
  note ok = populate_slices_Ok [OF pop]
  have other: "\<exists>l2'. make_slices P l2 = Ok l2' \<and> layer_slices l2' = layer_slices l'"
    if "regions l2 = regions l" for l2
  proof -
    have "merged_slices P l2 = Inr sl"
      using sl merged_slices_regions [OF that] by simp
    then show ?thesis using ok
      by (simp add: make_slices_def populate_slices_ok)
  qed
  show ?thesis
    using sl ok other
    by (intro exI [of _ sl]) (simp add: distinct_chained_path set_chained_path greedy_chained_path)
qed

theorem make_slices_deterministic_order_witness:
  "\<exists>sl. merged_slices rect_prims layer_row = Inr sl
      \<and> [rect 0 0 5 5, rect 10 0 15 5, rect 30 0 35 5, rect (- 10) 0 (- 5) 5]
          = map (\<lambda>i. sl ! i) (chained_path (map (\<lambda>ex. hd (contour ex)) sl))
      \<and> greedy_chain (map (\<lambda>ex. hd (contour ex)) sl)
           (chained_path (map (\<lambda>ex. hd (contour ex)) sl))
      \<and> (\<exists>l2'. make_slices rect_prims (layer_row\<lparr>layer_id := 7, layer_slices := [rect 0 0 1 1]\<rparr>) = Ok l2'
             \<and> layer_slices l2' = [rect 0 0 5 5, rect 10 0 15 5, rect 30 0 35 5, rect (- 10) 0 (- 5) 5])"
  using make_slices_deterministic_order [OF make_slices_layer_row]
  by fastforce

section \<open>Destruction keeps the neighbour links symmetric\<close>

lemma links_backD:
  assumes "neighbours_symmetric h" and "h a = Some l"
  shows "upper_layer l = Some b \<Longrightarrow> \<exists>lb. h b = Some lb \<and> lower_layer lb = Some a"
    and "lower_layer l = Some b \<Longrightarrow> \<exists>lb. h b = Some lb \<and> upper_layer lb = Some a"
proof -
  have "links_back h a" using assms by (auto simp: neighbours_symmetric_def)
  then show "upper_layer l = Some b \<Longrightarrow> \<exists>lb. h b = Some lb \<and> lower_layer lb = Some a"
    and "lower_layer l = Some b \<Longrightarrow> \<exists>lb. h b = Some lb \<and> upper_layer lb = Some a"
    using assms(2) by (auto simp: links_back_def split: option.splits)
qed

lemma remove_references_to_self_eq:
  assumes "neighbours_symmetric h" and "h a = Some l"
  shows "\<exists>h1. remove_references_to_self h a = Inr h1
           \<and> (\<forall>b. b \<noteq> a \<longrightarrow> h1 b = map_option (unlinked l b) (h b))
           \<and> (\<exists>l1. h1 a = Some l1 \<and> regions l1 = regions l)"
proof -
  note D = links_backD [OF assms]
  show ?thesis
  proof (cases "upper_layer l")
    case None
    note up = None
    show ?thesis
    proof (cases "lower_layer l")
      case None
      have "remove_references_to_self h a = Inr h"
        using up None assms(2) by (simp add: remove_references_to_self_def)
      moreover have "\<forall>b. b \<noteq> a \<longrightarrow> h b = map_option (unlinked l b) (h b)"
        using up None by (auto simp: unlinked_def map_option_case split: option.splits)
      ultimately show ?thesis using assms(2) by auto
    next
      case (Some d)
      from D(2) [OF Some] obtain ld where ld: "h d = Some ld" "upper_layer ld = Some a" by blast
      let ?h2 = "h(d \<mapsto> ld\<lparr>upper_layer := None\<rparr>)"
      have "remove_references_to_self h a = Inr ?h2"
        using up Some assms(2) ld
        by (simp add: remove_references_to_self_def set_upper_layer_def)
      moreover have "\<forall>b. b \<noteq> a \<longrightarrow> ?h2 b = map_option (unlinked l b) (h b)"
        using up Some ld by (auto simp: unlinked_def map_option_case split: option.splits)
      moreover have "\<exists>l1. ?h2 a = Some l1 \<and> regions l1 = regions l"
        using assms(2) ld by (cases "d = a") auto
      ultimately show ?thesis by blast
    qed
  next
    case (Some u)
    note up = Some
    from D(1) [OF Some] obtain lu where lu: "h u = Some lu" "lower_layer lu = Some a" by blast
    let ?h1 = "h(u \<mapsto> lu\<lparr>lower_layer := None\<rparr>)"
    show ?thesis
    proof (cases "u = a")
      case True
      then have ll: "lower_layer l = Some a" "lu = l" using lu assms(2) by auto
      have "remove_references_to_self h a = Inr ?h1"
        using True up ll assms(2)
        by (simp add: remove_references_to_self_def set_lower_layer_def)
      moreover have "\<forall>b. b \<noteq> a \<longrightarrow> ?h1 b = map_option (unlinked l b) (h b)"
        using True up ll by (auto simp: unlinked_def map_option_case split: option.splits)
      moreover have "\<exists>l1. ?h1 a = Some l1 \<and> regions l1 = regions l"
        using True ll by auto
      ultimately show ?thesis by blast
    next
      case False
      then have a1: "?h1 a = Some l" using assms(2) by simp
      show ?thesis
      proof (cases "lower_layer l")
        case None
        have "remove_references_to_self h a = Inr ?h1"
          using up None assms(2) lu False
          by (simp add: remove_references_to_self_def set_lower_layer_def)
        moreover have "\<forall>b. b \<noteq> a \<longrightarrow> ?h1 b = map_option (unlinked l b) (h b)"
          using up None lu by (auto simp: unlinked_def map_option_case split: option.splits)
        ultimately show ?thesis using a1 by blast
      next
        case (Some d)
        note lo = Some
        from D(2) [OF Some] obtain ld where ld: "h d = Some ld" "upper_layer ld = Some a" by blast
        have da: "d \<noteq> a"
        proof
          assume "d = a"
          then have "upper_layer l = Some a" using ld assms(2) by simp
          then show False using up False by simp
        qed
        obtain ld1 where ld1: "?h1 d = Some ld1" using ld by (cases "d = u") auto
        let ?h2 = "?h1(d \<mapsto> ld1\<lparr>upper_layer := None\<rparr>)"
        have "remove_references_to_self h a = Inr ?h2"
          using up lo assms(2) lu False ld1
          by (simp add: remove_references_to_self_def set_lower_layer_def set_upper_layer_def)
        moreover have "\<forall>b. b \<noteq> a \<longrightarrow> ?h2 b = map_option (unlinked l b) (h b)"
          using up lo lu ld ld1
          by (auto simp: unlinked_def map_option_case split: option.splits if_splits)
        moreover have "\<exists>l1. ?h2 a = Some l1 \<and> regions l1 = regions l"
          using a1 da by simp
        ultimately show ?thesis by blast
      qed
    qed
  qed
qed

lemma destroy_Layer_eq:
  assumes "remove_references_to_self h a = Inr h1" and "h1 a = Some l1"
    and "length (regions l1) < 2 ^ 31"
  shows "destroy_Layer h a = Inr [h1, h1(a \<mapsto> l1\<lparr>regions := []\<rparr>), h1(a := None)]"
proof -
  have "clear_regions l1 = Inr (l1\<lparr>regions := []\<rparr>)"
    by (rule clear_regions_all) (rule assms(3))
  then show ?thesis using assms(1,2) by (simp add: destroy_Layer_def)
qed

lemma unlinked_symmetric:
  assumes "neighbours_symmetric h" and "h a = Some l"
  shows "neighbours_symmetric (\<lambda>b. if b = a then None else map_option (unlinked l b) (h b))"
    and "unreferenced (\<lambda>b. if b = a then None else map_option (unlinked l b) (h b)) a"
proof -
  let ?h' = "\<lambda>b. if b = a then None else map_option (unlinked l b) (h b)"
  note D = links_backD [OF assms(1)]
  have up: "\<exists>lc. ?h' c = Some lc \<and> lower_layer lc = Some b"
    if b: "b \<noteq> a" "h b = Some lb" and c: "upper_layer (unlinked l b lb) = Some c" for b lb c
  proof -
    have ub: "upper_layer lb = Some c" and nb: "lower_layer l \<noteq> Some b"
      using c by (auto simp: unlinked_def split: if_splits)
    from D(1) [OF b(2) ub] obtain lc where lc: "h c = Some lc" "lower_layer lc = Some b" by blast
    have ca: "c \<noteq> a" using lc assms(2) nb by auto
    have "upper_layer l \<noteq> Some c" using D(1) [OF assms(2), of c] lc b(1) by auto
    then show ?thesis using lc ca by (simp add: unlinked_def)
  qed
  have lo: "\<exists>lc. ?h' c = Some lc \<and> upper_layer lc = Some b"
    if b: "b \<noteq> a" "h b = Some lb" and c: "lower_layer (unlinked l b lb) = Some c" for b lb c
  proof -
    have ub: "lower_layer lb = Some c" and nb: "upper_layer l \<noteq> Some b"
      using c by (auto simp: unlinked_def split: if_splits)
    from D(2) [OF b(2) ub] obtain lc where lc: "h c = Some lc" "upper_layer lc = Some b" by blast
    have ca: "c \<noteq> a" using lc assms(2) nb by auto
    have "lower_layer l \<noteq> Some c" using D(2) [OF assms(2), of c] lc b(1) by auto
    then show ?thesis using lc ca by (simp add: unlinked_def)
  qed
  show "neighbours_symmetric ?h'"
    unfolding neighbours_symmetric_def links_back_def
    using up lo by (fastforce split: option.splits if_splits)
  have "upper_layer (unlinked l b lb) \<noteq> Some a \<and> lower_layer (unlinked l b lb) \<noteq> Some a"
    if b: "b \<noteq> a" "h b = Some lb" for b lb
    using up [OF b, of a] lo [OF b, of a] by auto
  then show "unreferenced ?h' a"
    unfolding unreferenced_def by (auto split: option.splits if_splits)
qed

lemma stack3_symmetric: "neighbours_symmetric stack3"
  by (simp add: neighbours_symmetric_def links_back_def stack3_def Layer_def)

text \<open>
  Claim C9. The linkage invariant (every neighbour link points to a live layer whose
  opposite link points back) is kept by construction and by destruction. In a store
  with symmetric links, the destruction of a layer (whose region count fits an \<open>int\<close>)
  passes through three stores, in this order. In the first the back-references of both
  neighbours are \<open>NULL\<close> and the layer still has all its regions; in the second the
  layer's regions are released and nothing else has changed; in the third the layer is
  gone, no remaining layer refers to it, and the links of the remaining layers are
  symmetric.
\<close>

theorem destroy_Layer_repairs_links:
  assumes "neighbours_symmetric h"
  shows "(h a = None \<longrightarrow> neighbours_symmetric (new_Layer h a i ht pz sz))
       \<and> (\<forall>l. h a = Some l \<and> region_count l < 2 ^ 31 \<longrightarrow>
            (\<exists>h1 l1. remove_references_to_self h a = Inr h1
               \<and> destroy_Layer h a = Inr [h1, h1(a \<mapsto> l1\<lparr>regions := []\<rparr>), h1(a := None)]
               \<and> h1 a = Some l1 \<and> regions l1 = regions l
               \<and> (\<forall>b. b \<noteq> a \<and> upper_layer l = Some b \<longrightarrow> (\<exists>lb. h1 b = Some lb \<and> lower_layer lb = None))
               \<and> (\<forall>b. b \<noteq> a \<and> lower_layer l = Some b \<longrightarrow> (\<exists>lb. h1 b = Some lb \<and> upper_layer lb = None))
               \<and> dom (h1(a := None)) = dom h - {a}
               \<and> neighbours_symmetric (h1(a := None))
               \<and> unreferenced (h1(a := None)) a))"
proof (intro conjI impI allI)
  assume fresh: "h a = None"
  have nolink: "upper_layer lb \<noteq> Some a \<and> lower_layer lb \<noteq> Some a" if "h b = Some lb" for b lb
    using links_backD [OF assms that, of a] fresh by auto
  show "neighbours_symmetric (new_Layer h a i ht pz sz)"
    unfolding neighbours_symmetric_def
  proof
    fix b assume "b \<in> dom (new_Layer h a i ht pz sz)"
    show "links_back (new_Layer h a i ht pz sz) b"
    proof (cases "b = a")
      case True
      then show ?thesis by (simp add: links_back_def new_Layer_def Layer_def)
    next
      case False
      then have "links_back h b" using assms \<open>b \<in> dom (new_Layer h a i ht pz sz)\<close>
        by (auto simp: neighbours_symmetric_def new_Layer_def)
      then show ?thesis using False nolink [of b]
        by (auto simp: links_back_def new_Layer_def split: option.splits)
    qed
  qed
next
  fix l assume "h a = Some l \<and> region_count l < 2 ^ 31"
  then have l: "h a = Some l" and n: "length (regions l) < 2 ^ 31"
    by (simp_all add: region_count_def)
  let ?h' = "\<lambda>b. if b = a then None else map_option (unlinked l b) (h b)"
  from remove_references_to_self_eq [OF assms l] obtain h1 l1
    where h1: "remove_references_to_self h a = Inr h1"
      "\<forall>b. b \<noteq> a \<longrightarrow> h1 b = map_option (unlinked l b) (h b)"
      "h1 a = Some l1" "regions l1 = regions l"
    by blast
  have n1: "length (regions l1) < 2 ^ 31" using n by (simp only: h1(4))
  have d: "destroy_Layer h a = Inr [h1, h1(a \<mapsto> l1\<lparr>regions := []\<rparr>), h1(a := None)]"
    by (rule destroy_Layer_eq [OF h1(1) h1(3) n1])
  have eq: "?h' = h1(a := None)" using h1(2) by (auto simp: fun_eq_iff)
  have up: "\<exists>lb. h1 b = Some lb \<and> lower_layer lb = None" if "b \<noteq> a \<and> upper_layer l = Some b" for b
  proof -
    from that links_backD(1) [OF assms l, of b] obtain lb where lb: "h b = Some lb" by blast
    have "h1 b = Some (unlinked l b lb)" using that h1(2) lb by simp
    moreover have "lower_layer (unlinked l b lb) = None" using that by (simp add: unlinked_def)
    ultimately show ?thesis by blast
  qed
  have lo: "\<exists>lb. h1 b = Some lb \<and> upper_layer lb = None" if "b \<noteq> a \<and> lower_layer l = Some b" for b
  proof -
    from that links_backD(2) [OF assms l, of b] obtain lb where lb: "h b = Some lb" by blast
    have "h1 b = Some (unlinked l b lb)" using that h1(2) lb by simp
    moreover have "upper_layer (unlinked l b lb) = None" using that by (simp add: unlinked_def)
    ultimately show ?thesis by blast
  qed
  have dm: "dom ?h' = dom h - {a}" by (auto split: if_splits)
  show "\<exists>h1 l1. remove_references_to_self h a = Inr h1
               \<and> destroy_Layer h a = Inr [h1, h1(a \<mapsto> l1\<lparr>regions := []\<rparr>), h1(a := None)]
               \<and> h1 a = Some l1 \<and> regions l1 = regions l
               \<and> (\<forall>b. b \<noteq> a \<and> upper_layer l = Some b \<longrightarrow> (\<exists>lb. h1 b = Some lb \<and> lower_layer lb = None))
               \<and> (\<forall>b. b \<noteq> a \<and> lower_layer l = Some b \<longrightarrow> (\<exists>lb. h1 b = Some lb \<and> upper_layer lb = None))
               \<and> dom (h1(a := None)) = dom h - {a}
               \<and> neighbours_symmetric (h1(a := None))
               \<and> unreferenced (h1(a := None)) a"
  proof (rule exI [of _ h1], rule exI [of _ l1])
    show "remove_references_to_self h a = Inr h1
               \<and> destroy_Layer h a = Inr [h1, h1(a \<mapsto> l1\<lparr>regions := []\<rparr>), h1(a := None)]
               \<and> h1 a = Some l1 \<and> regions l1 = regions l
               \<and> (\<forall>b. b \<noteq> a \<and> upper_layer l = Some b \<longrightarrow> (\<exists>lb. h1 b = Some lb \<and> lower_layer lb = None))
               \<and> (\<forall>b. b \<noteq> a \<and> lower_layer l = Some b \<longrightarrow> (\<exists>lb. h1 b = Some lb \<and> upper_layer lb = None))
               \<and> dom (h1(a := None)) = dom h - {a}
               \<and> neighbours_symmetric (h1(a := None))
               \<and> unreferenced (h1(a := None)) a"
      using h1(1,3,4) up lo d dm unlinked_symmetric [OF assms l] unfolding eq
      by blast
  qed
qed

theorem destroy_Layer_repairs_links_witness:
  "neighbours_symmetric stack3
   \<and> neighbours_symmetric (new_Layer stack3 3 3 1 4 4)
   \<and> (\<exists>h1 l1. destroy_Layer stack3 1 = Inr [h1, h1(1 \<mapsto> l1\<lparr>regions := []\<rparr>), h1(1 := None)]
         \<and> h1 1 = Some l1
         \<and> regions l1 = [region_with (cfg 3) (rect 0 0 10 10), region_with (cfg 3) (rect 20 0 30 10)]
         \<and> (\<exists>lb. h1 0 = Some lb \<and> upper_layer lb = None)
         \<and> (\<exists>lb. h1 2 = Some lb \<and> lower_layer lb = None)
         \<and> dom (h1(1 := None)) = {0, 2}
         \<and> neighbours_symmetric (h1(1 := None)))"
proof -
  let ?l = "layer_pair\<lparr>lower_layer := Some 0, upper_layer := Some 2\<rparr>"
  have f: "stack3 3 = None" by (simp add: stack3_def)
  have l: "stack3 1 = Some ?l \<and> region_count ?l < 2 ^ 31"
    by (simp add: stack3_def region_count_def layer_pair_def layer_of_def)
  have r: "regions ?l = [region_with (cfg 3) (rect 0 0 10 10), region_with (cfg 3) (rect 20 0 30 10)]"
    by (simp add: layer_pair_def layer_of_def)
  have d: "dom stack3 - {1} = {0, 2}" by (auto simp: stack3_def)
  from destroy_Layer_repairs_links [OF stack3_symmetric, of 3 3 1 4 4] f
  have n: "neighbours_symmetric (new_Layer stack3 3 3 1 4 4)" by blast
  from destroy_Layer_repairs_links [OF stack3_symmetric, of 1] l
  obtain h1 l1 where h:
    "destroy_Layer stack3 1 = Inr [h1, h1(1 \<mapsto> l1\<lparr>regions := []\<rparr>), h1(1 := None)]"
    "h1 1 = Some l1" "regions l1 = regions ?l"
    "\<forall>b. b \<noteq> 1 \<and> upper_layer ?l = Some b \<longrightarrow> (\<exists>lb. h1 b = Some lb \<and> lower_layer lb = None)"
    "\<forall>b. b \<noteq> 1 \<and> lower_layer ?l = Some b \<longrightarrow> (\<exists>lb. h1 b = Some lb \<and> upper_layer lb = None)"
    "dom (h1(1 := None)) = dom stack3 - {1}"
    "neighbours_symmetric (h1(1 := None))"
    by blast
  from h(4) have u: "\<exists>lb. h1 2 = Some lb \<and> lower_layer lb = None" by simp
  from h(5) have w: "\<exists>lb. h1 0 = Some lb \<and> upper_layer lb = None" by simp
  have "destroy_Layer stack3 1 = Inr [h1, h1(1 \<mapsto> l1\<lparr>regions := []\<rparr>), h1(1 := None)]
         \<and> h1 1 = Some l1
         \<and> regions l1 = [region_with (cfg 3) (rect 0 0 10 10), region_with (cfg 3) (rect 20 0 30 10)]
         \<and> (\<exists>lb. h1 0 = Some lb \<and> upper_layer lb = None)
         \<and> (\<exists>lb. h1 2 = Some lb \<and> lower_layer lb = None)
         \<and> dom (h1(1 := None)) = {0, 2}
         \<and> neighbours_symmetric (h1(1 := None))"
    using h(1,2,3,6,7) r u w d by simp
  then show ?thesis using stack3_symmetric n by blast
qed

section \<open>make_perimeters: the groups\<close>

lemma compatible_refl: "compatible c c"
  by (simp add: compatible_def)

lemma compatible_sym: "compatible c d \<Longrightarrow> compatible d c"
  by (simp add: compatible_def)

lemma compatible_trans: "compatible c d \<Longrightarrow> compatible d e \<Longrightarrow> compatible c e"
  by (simp add: compatible_def)

lemma set_find_compatible:
  "set (find_compatible rs i) =
     insert i {j. i < j \<and> j < length rs \<and> compatible (config (rs ! i)) (config (rs ! j))}"
  by (auto simp: find_compatible_def)

lemma earlier_compatible_Suc:
  assumes "m < length rs"
  shows "earlier_compatible rs (Suc m) =
           (if m \<in> earlier_compatible rs m then earlier_compatible rs m
            else earlier_compatible rs m \<union> set (find_compatible rs m))"
proof (cases "m \<in> earlier_compatible rs m")
  case True
  then obtain k where k: "k < m" "compatible (config (rs ! k)) (config (rs ! m))"
    by (auto simp: earlier_compatible_def)
  have "earlier_compatible rs (Suc m) \<subseteq> earlier_compatible rs m"
  proof
    fix j assume "j \<in> earlier_compatible rs (Suc m)"
    then obtain k' where k': "j < length rs" "k' < Suc m" "compatible (config (rs ! k')) (config (rs ! j))"
      by (auto simp: earlier_compatible_def)
    show "j \<in> earlier_compatible rs m"
    proof (cases "k' = m")
      case True
      then have "compatible (config (rs ! k)) (config (rs ! j))"
        using k(2) k'(3) compatible_trans by blast
      then show ?thesis using k(1) k'(1) by (auto simp: earlier_compatible_def)
    next
      case False
      then have "k' < m" using k'(2) by simp
      then show ?thesis using k'(1,3) by (auto simp: earlier_compatible_def)
    qed
  qed
  moreover have "earlier_compatible rs m \<subseteq> earlier_compatible rs (Suc m)"
    by (auto simp: earlier_compatible_def less_Suc_eq)
  ultimately show ?thesis using True by auto
next
  case False
  then have nm: "\<And>k. k < m \<Longrightarrow> \<not> compatible (config (rs ! k)) (config (rs ! m))"
    using assms by (auto simp: earlier_compatible_def)
  have "earlier_compatible rs (Suc m) = earlier_compatible rs m \<union> set (find_compatible rs m)"
  proof (intro equalityI subsetI)
    fix j assume "j \<in> earlier_compatible rs (Suc m)"
    then obtain k' where k': "j < length rs" "k' < Suc m" "compatible (config (rs ! k')) (config (rs ! j))"
      by (auto simp: earlier_compatible_def)
    show "j \<in> earlier_compatible rs m \<union> set (find_compatible rs m)"
    proof (cases "k' = m")
      case True
      have "\<not> j < m" using nm [of j] k'(3) True compatible_sym by blast
      then show ?thesis using True k' by (auto simp: set_find_compatible)
    next
      case False
      then have "k' < m" using k'(2) by simp
      then show ?thesis using k'(1,3) by (auto simp: earlier_compatible_def)
    qed
  next
    fix j assume "j \<in> earlier_compatible rs m \<union> set (find_compatible rs m)"
    then show "j \<in> earlier_compatible rs (Suc m)"
      using assms compatible_refl [of "config (rs ! m)"]
      by (auto simp: earlier_compatible_def set_find_compatible less_Suc_eq)
  qed
  then show ?thesis using False by simp
qed

lemma groups_loop_set:
  assumes "m \<le> length rs"
  shows "set (perimeter_groups_loop rs [m..<length rs] (earlier_compatible rs m)) =
           {find_compatible rs i | i. m \<le> i \<and> i < length rs \<and> leader rs i}"
  using assms
proof (induction "length rs - m" arbitrary: m)
  case 0
  then show ?case by auto
next
  case (Suc d)
  then have m: "m < length rs" by simp
  have upt: "[m..<length rs] = m # [Suc m..<length rs]" using m by (rule upt_conv_Cons)
  have ih: "set (perimeter_groups_loop rs [Suc m..<length rs] (earlier_compatible rs (Suc m))) =
              {find_compatible rs i | i. Suc m \<le> i \<and> i < length rs \<and> leader rs i}"
    using Suc.hyps(1) [of "Suc m"] Suc.hyps(2) m by simp
  have lead: "leader rs m \<longleftrightarrow> m \<notin> earlier_compatible rs m"
    using m by (auto simp: leader_def earlier_compatible_def)
  show ?case
  proof (cases "m \<in> earlier_compatible rs m")
    case True
    then have "set (perimeter_groups_loop rs [m..<length rs] (earlier_compatible rs m)) =
                 {find_compatible rs i | i. Suc m \<le> i \<and> i < length rs \<and> leader rs i}"
      using ih earlier_compatible_Suc [OF m] by (simp add: upt)
    moreover have "\<not> leader rs m" using True lead by simp
    ultimately show ?thesis by (auto simp: Suc_le_eq order_le_less)
  next
    case False
    then have "set (perimeter_groups_loop rs [m..<length rs] (earlier_compatible rs m)) =
                 insert (find_compatible rs m)
                   {find_compatible rs i | i. Suc m \<le> i \<and> i < length rs \<and> leader rs i}"
      using ih earlier_compatible_Suc [OF m] by (simp add: upt Let_def)
    moreover have "leader rs m" using False lead by simp
    ultimately show ?thesis using m by (auto simp: Suc_le_eq order_le_less)
  qed
qed

lemma set_perimeter_groups:
  "set (perimeter_groups rs) = {find_compatible rs i | i. i < length rs \<and> leader rs i}"
proof -
  have "earlier_compatible rs 0 = {}" by (simp add: earlier_compatible_def)
  then show ?thesis using groups_loop_set [of 0 rs] by (simp add: perimeter_groups_def)
qed

lemma same_group_iff:
  assumes "i < length rs" and "j < length rs"
  shows "(\<exists>g \<in> set (perimeter_groups rs). i \<in> set g \<and> j \<in> set g)
         \<longleftrightarrow> compatible (config (rs ! i)) (config (rs ! j))"
proof
  assume "\<exists>g \<in> set (perimeter_groups rs). i \<in> set g \<and> j \<in> set g"
  then obtain a where a: "i \<in> set (find_compatible rs a)" "j \<in> set (find_compatible rs a)"
    by (auto simp: set_perimeter_groups)
  have "compatible (config (rs ! a)) (config (rs ! i))" "compatible (config (rs ! a)) (config (rs ! j))"
    using a compatible_refl by (auto simp: set_find_compatible)
  then show "compatible (config (rs ! i)) (config (rs ! j))"
    using compatible_sym compatible_trans by blast
next
  assume c: "compatible (config (rs ! i)) (config (rs ! j))"
  define a where "a = (LEAST k. compatible (config (rs ! k)) (config (rs ! i)))"
  have ai: "compatible (config (rs ! a)) (config (rs ! i))"
    unfolding a_def by (rule LeastI [of _ i]) (rule compatible_refl)
  have least: "\<And>k. compatible (config (rs ! k)) (config (rs ! i)) \<Longrightarrow> a \<le> k"
    unfolding a_def by (rule Least_le)
  have ale: "a \<le> i" by (rule least) (rule compatible_refl)
  have aj: "compatible (config (rs ! a)) (config (rs ! j))"
    using ai c compatible_trans by blast
  have alj: "a \<le> j" by (rule least) (rule compatible_sym [OF c])
  have "leader rs a"
    unfolding leader_def
  proof (intro allI impI notI)
    fix k assume "k < a" and "compatible (config (rs ! k)) (config (rs ! a))"
    then have "a \<le> k" using least ai compatible_trans by blast
    with \<open>k < a\<close> show False by simp
  qed
  moreover have "a < length rs" using ale assms(1) by simp
  moreover have "i \<in> set (find_compatible rs a)" "j \<in> set (find_compatible rs a)"
    using ai aj ale alj assms by (auto simp: set_find_compatible order_le_less)
  ultimately show "\<exists>g \<in> set (perimeter_groups rs). i \<in> set g \<and> j \<in> set g"
    by (auto simp: set_perimeter_groups)
qed

lemma outcome_layer_simps [simp]:
  "outcome_layer (Ok l) = l" "outcome_layer (Failed e l) = l"
  by (simp_all add: outcome_layer_def)

lemma map_update_same: "f x = f (xs ! i) \<Longrightarrow> map f (xs[i := x]) = map f xs"
  by (induction xs arbitrary: i) (auto split: nat.splits)

lemma same_input_refl: "same_input l l"
  by (simp add: same_input_def)

lemma same_input_trans: "same_input l l' \<Longrightarrow> same_input l' l'' \<Longrightarrow> same_input l l''"
  by (simp add: same_input_def)

lemma same_input_length: "same_input l l' \<Longrightarrow> length (regions l') = length (regions l)"
  unfolding same_input_def using map_eq_imp_length_eq by blast

lemma same_input_nth:
  assumes "same_input l l'" and "k < length (regions l)"
  shows "config (regions l' ! k) = config (regions l ! k)"
    and "slices (regions l' ! k) = slices (regions l ! k)"
proof -
  have n: "k < length (regions l')" using assms same_input_length by simp
  have "map config (regions l') ! k = map config (regions l) ! k"
    "map slices (regions l') ! k = map slices (regions l) ! k"
    using assms(1) by (simp_all add: same_input_def)
  then show "config (regions l' ! k) = config (regions l ! k)"
    and "slices (regions l' ! k) = slices (regions l ! k)"
    using n assms(2) by simp_all
qed

lemma same_input_update:
  assumes "config r = config (regions l ! k)" and "slices r = slices (regions l ! k)"
  shows "same_input l (l\<lparr>regions := (regions l)[k := r]\<rparr>)"
  using assms by (simp add: same_input_def map_update_same)

lemma redistribute_frame:
  "same_input l (outcome_layer (redistribute P fill perim ks l))
   \<and> (\<forall>j. j \<notin> set ks \<longrightarrow> regions (outcome_layer (redistribute P fill perim ks l)) ! j = regions l ! j)
   \<and> perimeter_expolygons (outcome_layer (redistribute P fill perim ks l)) = perimeter_expolygons l"
proof (induction ks arbitrary: l)
  case Nil
  then show ?case by (simp add: same_input_refl)
next
  case (Cons k ks)
  show ?case
  proof (cases "intersection_ex P fill (slices (regions l ! k))")
    case (Inl e)
    then show ?thesis by (simp add: same_input_refl)
  next
    case (Inr expp)
    let ?r1 = "(regions l ! k)\<lparr>fill_surfaces := map (\<lambda>ex. (hd fill)\<lparr>expolygon := ex\<rparr>) expp\<rparr>"
    let ?l1 = "l\<lparr>regions := (regions l)[k := ?r1]\<rparr>"
    have s1: "same_input l ?l1" by (rule same_input_update) simp_all
    show ?thesis
    proof (cases "intersection_ex P perim (slices (regions l ! k))")
      case (Inl e)
      then show ?thesis using Inr s1 by (simp add: Let_def)
    next
      case (Inr expp')
      let ?r2 = "?r1\<lparr>perimeter_surfaces := map (\<lambda>ex. (hd fill)\<lparr>expolygon := ex\<rparr>) expp'\<rparr>"
      let ?l2 = "l\<lparr>regions := (regions l)[k := ?r2]\<rparr>"
      have s2: "same_input l ?l2" by (rule same_input_update) simp_all
      have eq: "redistribute P fill perim (k # ks) l = redistribute P fill perim ks ?l2"
        using \<open>intersection_ex P fill (slices (regions l ! k)) = Inr expp\<close> Inr by (simp add: Let_def)
      show ?thesis
        unfolding eq using Cons.IH [of ?l2] s2 same_input_trans by auto
    qed
  qed
qed

lemma process_group_frame:
  assumes "length g = 1 \<longrightarrow> g = [i]"
  shows "same_input l (outcome_layer (process_group P i g l))
   \<and> (\<forall>j. j \<notin> set g \<longrightarrow> regions (outcome_layer (process_group P i g l)) ! j = regions l ! j)"
proof (cases "length g = 1")
  case True
  then have g: "g = [i]" using assms by simp
  have "same_input l (l\<lparr>regions := (regions l)[i := r]\<rparr>)"
    if "config r = config (regions l ! i)" "slices r = slices (regions l ! i)" for r
    using that by (rule same_input_update)
  then show ?thesis using True g
    by (auto simp: process_group_def process_single_def Let_def same_input_def map_update_same)
next
  case False
  show ?thesis
  proof (cases "merge_buckets P (group_slices l g)")
    case (Inl e)
    then show ?thesis using False by (simp add: process_group_def process_multi_def same_input_refl)
  next
    case (Inr ns)
    let ?out = "region_make_perimeters P (regions l ! i) ns"
    let ?l1 = "l\<lparr>perimeter_expolygons := map expolygon (fst ?out)\<rparr>"
    have l1: "same_input l ?l1" "regions ?l1 = regions l" by (simp_all add: same_input_def)
    show ?thesis
    proof (cases "snd ?out = []")
      case True
      then show ?thesis using False Inr l1
        by (simp add: process_group_def process_multi_def Let_def)
    next
      case F: False
      have "process_group P i g l = redistribute P (snd ?out) (fst ?out) g ?l1"
        using False Inr F by (simp add: process_group_def process_multi_def Let_def)
      then show ?thesis
        using redistribute_frame [of ?l1 P "snd ?out" "fst ?out" g] l1 same_input_trans by auto
    qed
  qed
qed

lemma find_compatible_cong:
  assumes "map config rs' = map config rs"
  shows "find_compatible rs' i = find_compatible rs i"
proof -
  have len: "length rs' = length rs" using assms map_eq_imp_length_eq by blast
  have nth: "config (rs' ! k) = config (rs ! k)" if "k < length rs" for k
    using arg_cong [OF assms, of "\<lambda>xs. xs ! k"] that len by simp
  have "filter (\<lambda>j. compatible (config (rs' ! i)) (config (rs' ! j))) [Suc i..<length rs]
        = filter (\<lambda>j. compatible (config (rs ! i)) (config (rs ! j))) [Suc i..<length rs]"
    by (rule filter_cong) (auto simp: nth)
  then show ?thesis by (simp add: find_compatible_def len)
qed

lemma perimeter_groups_loop_cong:
  assumes "map config rs' = map config rs"
  shows "perimeter_groups_loop rs' is dn = perimeter_groups_loop rs is dn"
  by (induction "is" arbitrary: dn) (simp_all add: find_compatible_cong [OF assms] Let_def)

lemma hd_find_compatible [simp]: "hd (find_compatible rs i) = i"
  by (simp add: find_compatible_def)

lemma find_compatible_single: "length (find_compatible rs i) = 1 \<longrightarrow> find_compatible rs i = [i]"
  by (simp add: find_compatible_def)

lemma make_perimeters_loop_groups:
  "make_perimeters_loop P is dn l = process_groups P (perimeter_groups_loop (regions l) is dn) l"
proof (induction "is" arbitrary: dn l)
  case Nil
  then show ?case by simp
next
  case (Cons i "is")
  show ?case
  proof (cases "i \<in> dn")
    case True
    then show ?thesis using Cons.IH by simp
  next
    case False
    let ?g = "find_compatible (regions l) i"
    show ?thesis
    proof (cases "process_group P i ?g l")
      case (Failed e l')
      then show ?thesis using False by (simp add: Let_def)
    next
      case (Ok l')
      have "same_input l l'"
        using process_group_frame [OF find_compatible_single, of l P i "regions l"] Ok by simp
      then have "perimeter_groups_loop (regions l') is (dn \<union> set ?g)
                 = perimeter_groups_loop (regions l) is (dn \<union> set ?g)"
        by (intro perimeter_groups_loop_cong) (simp add: same_input_def)
      then show ?thesis using False Ok Cons.IH [of "dn \<union> set ?g" l'] by (simp add: Let_def)
    qed
  qed
qed

lemma make_perimeters_groups:
  "make_perimeters P l = process_groups P (perimeter_groups (regions l)) l"
  by (simp add: make_perimeters_def perimeter_groups_def make_perimeters_loop_groups)

text \<open>
  Claim C6. \<open>make_perimeters\<close> processes the groups of \<open>perimeter_groups\<close>, in their
  order; and two regions of the layer are members of one of these groups if and only if
  their configurations agree on all eight compared values.
\<close>

theorem perimeter_grouping:
  "make_perimeters P l = process_groups P (perimeter_groups (regions l)) l
   \<and> (\<forall>i j. i < region_count l \<and> j < region_count l \<longrightarrow>
        ((\<exists>g \<in> set (perimeter_groups (regions l)). i \<in> set g \<and> j \<in> set g)
         \<longleftrightarrow> (perimeter_extruder (config (regions l ! i)) = perimeter_extruder (config (regions l ! j))
              \<and> perimeters (config (regions l ! i)) = perimeters (config (regions l ! j))
              \<and> perimeter_speed (config (regions l ! i)) = perimeter_speed (config (regions l ! j))
              \<and> gap_fill_speed (config (regions l ! i)) = gap_fill_speed (config (regions l ! j))
              \<and> overhangs (config (regions l ! i)) = overhangs (config (regions l ! j))
              \<and> perimeter_extrusion_width (config (regions l ! i))
                  = perimeter_extrusion_width (config (regions l ! j))
              \<and> thin_walls (config (regions l ! i)) = thin_walls (config (regions l ! j))
              \<and> external_perimeters_first (config (regions l ! i))
                  = external_perimeters_first (config (regions l ! j)))))"
  using same_group_iff [of _ "regions l"]
  by (simp add: make_perimeters_groups region_count_def compatible_def)

theorem perimeter_grouping_witness:
  "(\<exists>g \<in> set (perimeter_groups (regions layer_pair)). 0 \<in> set g \<and> 1 \<in> set g)
   \<and> \<not> (\<exists>g \<in> set (perimeter_groups (regions layer_split)). 0 \<in> set g \<and> 1 \<in> set g)"
proof -
  have p: "0 < region_count layer_pair \<and> 1 < region_count layer_pair"
    by (simp add: region_count_def layer_pair_def layer_of_def)
  have s: "0 < region_count layer_split \<and> 1 < region_count layer_split"
    by (simp add: region_count_def layer_split_def layer_of_def)
  have "\<exists>g \<in> set (perimeter_groups (regions layer_pair)). 0 \<in> set g \<and> 1 \<in> set g"
    using perimeter_grouping [of rect_prims layer_pair, THEN conjunct2, rule_format, OF p]
    by (simp add: layer_pair_def layer_of_def region_with_def cfg_def)
  moreover have "\<not> (\<exists>g \<in> set (perimeter_groups (regions layer_split)). 0 \<in> set g \<and> 1 \<in> set g)"
    using perimeter_grouping [of rect_prims layer_split, THEN conjunct2, rule_format, OF s]
    by (simp add: layer_split_def layer_of_def region_with_def cfg_def)
  ultimately show ?thesis by blast
qed

section \<open>make_perimeters: what a group leaves behind\<close>

lemma find_compatible_disjoint_earlier:
  assumes "m \<notin> earlier_compatible rs m" and "m < length rs"
  shows "set (find_compatible rs m) \<inter> earlier_compatible rs m = {}"
proof -
  have False if j: "j \<in> set (find_compatible rs m)" "j \<in> earlier_compatible rs m" for j
  proof -
    from j(2) obtain k where k: "k < m" "compatible (config (rs ! k)) (config (rs ! j))"
      by (auto simp: earlier_compatible_def)
    have "compatible (config (rs ! m)) (config (rs ! j))"
      using j(1) compatible_refl by (auto simp: set_find_compatible)
    then have "compatible (config (rs ! k)) (config (rs ! m))"
      using k(2) compatible_sym compatible_trans by blast
    then show False using assms k(1) by (auto simp: earlier_compatible_def)
  qed
  then show ?thesis by blast
qed

lemma earlier_compatible_mono: "earlier_compatible rs m \<subseteq> earlier_compatible rs (Suc m)"
  by (auto simp: earlier_compatible_def less_Suc_eq)

lemma groups_loop_disjoint:
  assumes "m \<le> length rs"
  shows "(\<forall>g \<in> set (perimeter_groups_loop rs [m..<length rs] (earlier_compatible rs m)).
            set g \<inter> earlier_compatible rs m = {})
         \<and> sorted_wrt (\<lambda>a b. set a \<inter> set b = {})
              (perimeter_groups_loop rs [m..<length rs] (earlier_compatible rs m))"
  using assms
proof (induction "length rs - m" arbitrary: m)
  case 0
  then show ?case by auto
next
  case (Suc d)
  then have m: "m < length rs" by simp
  have upt: "[m..<length rs] = m # [Suc m..<length rs]" using m by (rule upt_conv_Cons)
  let ?rest = "perimeter_groups_loop rs [Suc m..<length rs] (earlier_compatible rs (Suc m))"
  have ih: "(\<forall>g \<in> set ?rest. set g \<inter> earlier_compatible rs (Suc m) = {})
            \<and> sorted_wrt (\<lambda>a b. set a \<inter> set b = {}) ?rest"
    using Suc.hyps(1) [of "Suc m"] Suc.hyps(2) m by simp
  have ih1: "\<forall>g \<in> set ?rest. set g \<inter> earlier_compatible rs m = {}"
    using ih earlier_compatible_mono [of rs m] by blast
  show ?case
  proof (cases "m \<in> earlier_compatible rs m")
    case True
    then have "perimeter_groups_loop rs [m..<length rs] (earlier_compatible rs m) = ?rest"
      using earlier_compatible_Suc [OF m] by (simp add: upt)
    then show ?thesis using ih ih1 by simp
  next
    case False
    then have e: "earlier_compatible rs (Suc m) = earlier_compatible rs m \<union> set (find_compatible rs m)"
      using earlier_compatible_Suc [OF m] by simp
    have l: "perimeter_groups_loop rs [m..<length rs] (earlier_compatible rs m)
             = find_compatible rs m # ?rest"
      using False e by (simp add: upt Let_def)
    have "\<forall>g \<in> set ?rest. set (find_compatible rs m) \<inter> set g = {}"
      using ih e by blast
    then show ?thesis
      unfolding l using ih ih1 find_compatible_disjoint_earlier [OF False m] by simp
  qed
qed

lemma perimeter_groups_disjoint:
  "sorted_wrt (\<lambda>a b. set a \<inter> set b = {}) (perimeter_groups rs)"
proof -
  have "earlier_compatible rs 0 = {}" by (simp add: earlier_compatible_def)
  then show ?thesis using groups_loop_disjoint [of 0 rs] by (simp add: perimeter_groups_def)
qed

lemma perimeter_groups_shape:
  assumes "g \<in> set (perimeter_groups rs)"
  shows "g = find_compatible rs (hd g) \<and> hd g \<in> set g \<and> distinct g \<and> hd g < length rs"
proof -
  from assms obtain i where i: "g = find_compatible rs i" "i < length rs"
    by (auto simp: set_perimeter_groups)
  have "distinct (find_compatible rs i)" by (auto simp: find_compatible_def)
  then show ?thesis using i by (simp add: set_find_compatible)
qed

lemma perimeter_groups_nonempty:
  assumes "rs \<noteq> []"
  shows "perimeter_groups rs \<noteq> []"
proof -
  have "leader rs 0" by (simp add: leader_def)
  then have "find_compatible rs 0 \<in> set (perimeter_groups rs)"
    using assms by (auto simp: set_perimeter_groups)
  then show ?thesis by auto
qed

lemma process_groups_append:
  "process_groups P (gs1 @ gs2) l =
     (case process_groups P gs1 l of Failed e l' \<Rightarrow> Failed e l' | Ok l1 \<Rightarrow> process_groups P gs2 l1)"
  by (induction gs1 arbitrary: l) (auto split: outcome.splits)

lemma process_groups_frame:
  "same_input l (outcome_layer (process_groups P gs l))
   \<and> (\<forall>j. j \<notin> \<Union> (set ` set gs) \<longrightarrow> regions (outcome_layer (process_groups P gs l)) ! j = regions l ! j)"
proof (induction gs arbitrary: l)
  case Nil
  then show ?case by (simp add: same_input_refl)
next
  case (Cons g gs)
  have one: "length g = 1 \<longrightarrow> g = [hd g]" by (cases g) auto
  note f = process_group_frame [OF one, of l P]
  show ?case
  proof (cases "process_group P (hd g) g l")
    case (Failed e l')
    then show ?thesis using f by simp
  next
    case (Ok l')
    then show ?thesis using f Cons.IH [of l'] same_input_trans by auto
  qed
qed

lemma group_output_cong:
  assumes "\<forall>k \<in> set g. regions l1 ! k = regions l ! k" and "hd g \<in> set g"
  shows "group_output P l1 g = group_output P l g"
proof -
  have "map (\<lambda>k. slices (regions l1 ! k)) g = map (\<lambda>k. slices (regions l ! k)) g"
    using assms(1) by simp
  then have "group_slices l1 g = group_slices l g" by (simp only: group_slices_def)
  moreover have "regions l1 ! hd g = regions l ! hd g" using assms by blast
  ultimately show ?thesis by (auto simp: group_output_def split: sum.splits)
qed

lemma process_group_Ok_output:
  assumes "process_group P (hd g) g l = Ok l'"
  shows "\<exists>out. group_output P l g = Inr out \<and> perimeter_expolygons l' = map expolygon (fst out)"
proof (cases "length g = 1")
  case True
  then show ?thesis using assms
    by (auto simp: process_group_def process_single_def group_output_def Let_def)
next
  case False
  show ?thesis
  proof (cases "merge_buckets P (group_slices l g)")
    case (Inl e)
    then show ?thesis using False assms by (simp add: process_group_def process_multi_def)
  next
    case (Inr ns)
    let ?out = "region_make_perimeters P (regions l ! hd g) ns"
    let ?l1 = "l\<lparr>perimeter_expolygons := map expolygon (fst ?out)\<rparr>"
    have go: "group_output P l g = Inr ?out" using False Inr by (simp add: group_output_def)
    show ?thesis
    proof (cases "snd ?out = []")
      case True
      then show ?thesis using False Inr assms go
        by (auto simp: process_group_def process_multi_def Let_def)
    next
      case F: False
      have "redistribute P (snd ?out) (fst ?out) g ?l1 = Ok l'"
        using False Inr F assms by (simp add: process_group_def process_multi_def Let_def)
      then have "perimeter_expolygons l' = perimeter_expolygons ?l1"
        using redistribute_frame [of ?l1 P "snd ?out" "fst ?out" g] by simp
      then show ?thesis using go by simp
    qed
  qed
qed

lemma process_group_empty_fill:
  assumes "length g \<noteq> 1" and "group_output P l g = Inr out" and "snd out = []"
  shows "process_group P (hd g) g l = Ok (l\<lparr>perimeter_expolygons := map expolygon (fst out)\<rparr>)"
  using assms
  by (auto simp: process_group_def process_multi_def group_output_def Let_def split: sum.splits)




lemma groups_split_disjoint:
  assumes "perimeter_groups rs = gs1 @ g # gs2"
  shows "set g \<inter> \<Union> (set ` set gs1) = {}" and "set g \<inter> \<Union> (set ` set gs2) = {}"
    and "\<Union> (set ` set gs1) \<inter> \<Union> (set ` set gs2) = {}"
proof -
  have "sorted_wrt (\<lambda>a b. set a \<inter> set b = {}) (gs1 @ g # gs2)"
    using perimeter_groups_disjoint [of rs] assms by simp
  then have d: "\<forall>a \<in> set gs1. set a \<inter> set g = {}" "\<forall>b \<in> set gs2. set g \<inter> set b = {}"
    "\<forall>a \<in> set gs1. \<forall>b \<in> set gs2. set a \<inter> set b = {}"
    by (auto simp: sorted_wrt_append)
  show "set g \<inter> \<Union> (set ` set gs1) = {}" using d(1) by blast
  show "set g \<inter> \<Union> (set ` set gs2) = {}" using d(2) by blast
  show "\<Union> (set ` set gs1) \<inter> \<Union> (set ` set gs2) = {}" using d(3) by blast
qed

lemma process_groups_untouched:
  assumes "process_groups P gs l = Ok l1" and "k \<notin> \<Union> (set ` set gs)"
  shows "regions l1 ! k = regions l ! k"
  using process_groups_frame [of l P gs] assms by simp

section \<open>make_perimeters on the example layers\<close>

lemmas run_defs = rect_prims_def rect_make_perimeters_def rect_intersection_ex_def rect_union_ex_def
  inside_box_def degenerate_def rect_def ring_def line_def cfg_def surf_def stale_def region_with_def
  layer_of_def Layer_def make_perimeters_def find_compatible_def compatible_def process_group_def
  process_single_def process_multi_def group_slices_def Let_def

lemma make_perimeters_layer_pair: "make_perimeters rect_prims layer_pair =
  Ok (layer_pair\<lparr>regions :=
       [\<lparr>config = cfg 3, slices = [surf 3 (rect 0 0 10 10)],
          fill_surfaces = [surf 3 (rect 1 1 9 9)],
          perimeter_surfaces = [surf 3 (ring 0 0 10 10)]\<rparr>,
        \<lparr>config = cfg 3, slices = [surf 3 (rect 20 0 30 10)],
          fill_surfaces = [surf 3 (rect 21 1 29 9)],
          perimeter_surfaces = [surf 3 (ring 20 0 30 10)]\<rparr>],
      perimeter_expolygons := [ring 0 0 10 10, ring 20 0 30 10]\<rparr>)"
  by (simp add: run_defs layer_pair_def)

lemma make_perimeters_layer_split: "make_perimeters rect_prims layer_split =
  Ok (layer_split\<lparr>regions :=
       [\<lparr>config = cfg 3, slices = [surf 3 (rect 0 0 10 10)],
          fill_surfaces = [surf 3 (rect 1 1 9 9)],
          perimeter_surfaces = [surf 7 (ring 0 0 10 10)]\<rparr>,
        \<lparr>config = cfg 2, slices = [surf 3 (rect 20 0 30 10)],
          fill_surfaces = [surf 3 (rect 21 1 29 9)],
          perimeter_surfaces = [surf 7 (ring 20 0 30 10)]\<rparr>],
      perimeter_expolygons := [ring 20 0 30 10]\<rparr>)"
  by (simp add: run_defs layer_split_def)

lemma make_perimeters_layer_thin: "make_perimeters rect_prims layer_thin =
  Ok (layer_thin\<lparr>perimeter_expolygons := [line 0 10 1, line 20 30 1]\<rparr>)"
  by (simp add: run_defs layer_thin_def)


lemma make_perimeters_no_region: "make_perimeters rect_prims (layer_of []) = Ok (layer_of [])"
  by (simp add: make_perimeters_def layer_of_def)

lemma groups_layer_split: "perimeter_groups (regions layer_split) = [[0], [1]]"
  by (simp add: perimeter_groups_def layer_split_def layer_of_def region_with_def cfg_def
      find_compatible_def compatible_def)

lemma groups_layer_thin: "perimeter_groups (regions layer_thin) = [[0, 1]]"
  by (simp add: perimeter_groups_def layer_thin_def layer_of_def region_with_def cfg_def
      find_compatible_def compatible_def)


lemma group_output_layer_thin:
  "group_output rect_prims layer_thin [0, 1] = Inr ([surf 7 (line 0 10 1), surf 7 (line 20 30 1)], [])"
  by (simp add: group_output_def run_defs layer_thin_def)


section \<open>make_perimeters: the claims\<close>

text \<open>
  Claim C1, as the code has it. The redistribution is guarded by
  \<open>if (!fill_surfaces.surfaces.empty())\<close>: when the perimeter routine returns an empty
  pooled fill-surface set for a multi-region group, the redistribution is skipped, and
  after \<open>make_perimeters\<close> has returned every region of that group has the
  \<open>fill_surfaces\<close> and the \<open>perimeter_surfaces\<close> it had before the call.
\<close>

theorem empty_fill_skips_redistribution:
  assumes "make_perimeters P l = Ok l'"
    and "g \<in> set (perimeter_groups (regions l))" and "1 < length g"
    and "group_output P l g = Inr out" and "snd out = []"
  shows "\<forall>k \<in> set g. fill_surfaces (regions l' ! k) = fill_surfaces (regions l ! k)
                    \<and> perimeter_surfaces (regions l' ! k) = perimeter_surfaces (regions l ! k)"
proof -
  from assms(2) obtain gs1 gs2 where gs: "perimeter_groups (regions l) = gs1 @ g # gs2"
    by (auto dest: split_list)
  have "process_groups P (gs1 @ [g] @ gs2) l = Ok l'"
    using assms(1) gs by (simp add: make_perimeters_groups)
  then obtain l1 l2 where st: "process_groups P gs1 l = Ok l1"
    "process_group P (hd g) g l1 = Ok l2" "process_groups P gs2 l2 = Ok l'"
    by (auto simp: process_groups_append split: outcome.splits)
  have hd: "hd g \<in> set g" using assms(2) perimeter_groups_shape by blast
  note dj = groups_split_disjoint [OF gs]
  have r1: "\<forall>k \<in> set g. regions l1 ! k = regions l ! k"
    using dj(1) process_groups_untouched [OF st(1)] by blast
  then have "group_output P l1 g = Inr out"
    using group_output_cong [OF _ hd, of l1 l P] assms(4) by simp
  then have "process_group P (hd g) g l1 = Ok (l1\<lparr>perimeter_expolygons := map expolygon (fst out)\<rparr>)"
    using assms(3,5) by (intro process_group_empty_fill) simp_all
  then have r2: "regions l2 = regions l1" using st(2) by auto
  have r3: "\<forall>k \<in> set g. regions l' ! k = regions l2 ! k"
    using dj(2) process_groups_untouched [OF st(3)] by blast
  show ?thesis using r1 r2 r3 by simp
qed

theorem empty_fill_skips_redistribution_witness:
  "fill_surfaces (regions (outcome_layer (make_perimeters rect_prims layer_thin)) ! 0)
     = fill_surfaces (regions layer_thin ! 0)
   \<and> perimeter_surfaces (regions (outcome_layer (make_perimeters rect_prims layer_thin)) ! 0)
     = perimeter_surfaces (regions layer_thin ! 0)
   \<and> fill_surfaces (regions (outcome_layer (make_perimeters rect_prims layer_thin)) ! 1)
     = fill_surfaces (regions layer_thin ! 1)
   \<and> perimeter_surfaces (regions (outcome_layer (make_perimeters rect_prims layer_thin)) ! 1)
     = perimeter_surfaces (regions layer_thin ! 1)"
proof -
  have g: "[0, 1] \<in> set (perimeter_groups (regions layer_thin))"
    by (simp add: groups_layer_thin)
  have n: "1 < length [0::nat, 1]" by simp
  have e: "snd ([surf 7 (line 0 10 1), surf 7 (line 20 30 1)], [] :: surface list) = []" by simp
  show ?thesis
    using empty_fill_skips_redistribution
        [OF make_perimeters_layer_thin g n group_output_layer_thin e]
    by (simp add: make_perimeters_layer_thin)
qed

text \<open>
  Claim C1 as stated fails: two thin walls with one configuration form one group, the
  pooled fill-surface set is empty, and after the call region 0 still has the fill
  surface of the earlier pass.
\<close>

theorem empty_fill_not_cleared_counterexample:
  "perimeter_groups (regions layer_thin) = [[0, 1]]
   \<and> group_output rect_prims layer_thin [0, 1]
       = Inr ([surf 7 (line 0 10 1), surf 7 (line 20 30 1)], [])
   \<and> fill_surfaces (regions (outcome_layer (make_perimeters rect_prims layer_thin)) ! 0) = [stale]
   \<and> fill_surfaces (regions (outcome_layer (make_perimeters rect_prims layer_thin)) ! 0) \<noteq> []"
  using groups_layer_thin group_output_layer_thin make_perimeters_layer_thin
  by (simp add: layer_thin_def layer_of_def region_with_def)

text \<open>
  Claim C2, as the code has it. Every group's branch clears \<open>perimeter_expolygons\<close>
  before it copies the group's perimeter contours. So after \<open>make_perimeters\<close> has
  returned, \<open>perimeter_expolygons\<close> holds the contours of the perimeter surfaces
  generated for the last group formed, and those only; on a layer without regions it
  is unchanged.
\<close>

theorem perimeter_expolygons_last_group:
  assumes "make_perimeters P l = Ok l'"
  shows "(regions l = [] \<longrightarrow> perimeter_expolygons l' = perimeter_expolygons l)
       \<and> (regions l \<noteq> [] \<longrightarrow>
            (\<exists>out. group_output P l (last (perimeter_groups (regions l))) = Inr out
                 \<and> perimeter_expolygons l' = map expolygon (fst out)))"
proof (intro conjI impI)
  assume "regions l = []"
  then show "perimeter_expolygons l' = perimeter_expolygons l"
    using assms by (simp add: make_perimeters_def)
next
  assume ne: "regions l \<noteq> []"
  let ?gs = "perimeter_groups (regions l)"
  let ?g = "last ?gs"
  have gs: "?gs = butlast ?gs @ ?g # []"
    using perimeter_groups_nonempty [OF ne] by simp
  have "process_groups P (butlast ?gs @ [?g]) l = Ok l'"
    using assms gs by (simp add: make_perimeters_groups)
  then obtain l1 where l1: "process_groups P (butlast ?gs) l = Ok l1"
    "process_group P (hd ?g) ?g l1 = Ok l'"
    by (auto simp: process_groups_append split: outcome.splits)
  have "?g \<in> set ?gs" using perimeter_groups_nonempty [OF ne] by simp
  then have hd: "hd ?g \<in> set ?g" using perimeter_groups_shape by blast
  have "\<forall>k \<in> set ?g. regions l1 ! k = regions l ! k"
    using groups_split_disjoint(1) [OF gs] process_groups_untouched [OF l1(1)] by blast
  then have "group_output P l1 ?g = group_output P l ?g"
    using hd by (rule group_output_cong)
  then show "\<exists>out. group_output P l ?g = Inr out
                 \<and> perimeter_expolygons l' = map expolygon (fst out)"
    using process_group_Ok_output [OF l1(2)] by simp
qed

theorem perimeter_expolygons_last_group_witness:
  "perimeter_expolygons (outcome_layer (make_perimeters rect_prims (layer_of []))) = []
   \<and> (\<exists>out. group_output rect_prims layer_split (last (perimeter_groups (regions layer_split))) = Inr out
          \<and> [ring 20 0 30 10] = map expolygon (fst out))"
proof -
  have "perimeter_expolygons (outcome_layer (make_perimeters rect_prims (layer_of [])))
          = perimeter_expolygons (layer_of [])"
    using perimeter_expolygons_last_group [OF make_perimeters_no_region]
    by (simp add: make_perimeters_no_region)
  then have a: "perimeter_expolygons (outcome_layer (make_perimeters rect_prims (layer_of []))) = []"
    by (simp add: layer_of_def Layer_def)
  have b: "\<exists>out. group_output rect_prims layer_split (last (perimeter_groups (regions layer_split))) = Inr out
          \<and> [ring 20 0 30 10] = map expolygon (fst out)"
    using perimeter_expolygons_last_group [OF make_perimeters_layer_split]
    by (simp add: layer_of_def layer_split_def)
  show ?thesis using a b by blast
qed

text \<open>
  Claim C2 as stated fails: with two regions of different perimeter counts there are two
  groups; the contour generated for the first group is not in \<open>perimeter_expolygons\<close>
  after the call.
\<close>

theorem perimeter_expolygons_not_aggregated_counterexample:
  "perimeter_groups (regions layer_split) = [[0], [1]]
   \<and> group_output rect_prims layer_split [0]
       = Inr ([surf 7 (ring 0 0 10 10)], [surf 3 (rect 1 1 9 9)])
   \<and> perimeter_expolygons (outcome_layer (make_perimeters rect_prims layer_split))
       = [ring 20 0 30 10]
   \<and> ring 0 0 10 10 \<notin> set (perimeter_expolygons (outcome_layer (make_perimeters rect_prims layer_split)))"
  by (simp add: groups_layer_split make_perimeters_layer_split)
    (simp add: group_output_def run_defs layer_split_def)

text \<open>
  Claim C3 at a concrete layer: two large squares with one configuration form one group.
  The pooled perimeter surfaces have surface type 7, the pooled fill surfaces type 3, and
  after the call the perimeter surfaces of both regions carry type 3, cloned from the
  front of the fill-surface collection. In the single-region branch (the same squares
  with different configurations) the perimeter surfaces keep type 7.
\<close>

theorem perimeter_surfaces_cloned_from_fill:
  "perimeter_groups (regions layer_pair) = [[0, 1]]
   \<and> group_output rect_prims layer_pair [0, 1]
       = Inr ([surf 7 (ring 0 0 10 10), surf 7 (ring 20 0 30 10)],
              [surf 3 (rect 1 1 9 9), surf 3 (rect 21 1 29 9)])
   \<and> perimeter_surfaces (regions (outcome_layer (make_perimeters rect_prims layer_pair)) ! 0)
       = [surf 3 (ring 0 0 10 10)]
   \<and> perimeter_surfaces (regions (outcome_layer (make_perimeters rect_prims layer_pair)) ! 1)
       = [surf 3 (ring 20 0 30 10)]
   \<and> perimeter_surfaces (regions (outcome_layer (make_perimeters rect_prims layer_split)) ! 0)
       = [surf 7 (ring 0 0 10 10)]"
  by (simp add: make_perimeters_layer_pair make_perimeters_layer_split)
    (simp add: perimeter_groups_def group_output_def run_defs layer_pair_def)




end
